theory Spec2Isabelle
  imports Complex_Main "HOL-Library.Word" "HOL-Library.Multiset"
begin

unbundle bit_operations_syntax

section \<open>Flux evaluation (tfRunner\_cuda.cu, lines 1624--1742)\<close>

text \<open>
  Single-precision values are modelled as elements of \<^typ>\<open>real\<close>.  For positions,
  distances, concentrations, fluxes, energies and forces every arithmetic operation of the
  source is the exact operation here, so their rounding is outside the model.  The values
  that are converted to integers (the sort keys, the quantised shift and \<open>cuda_dmaxdist\<close>) are
  computed with the rounding of single precision, and the reciprocal square root has no
  value where the source yields an infinity or a NaN.  C arrays are lists; an access outside
  the list is undefined behaviour in the source, and the theorems below carry the index
  bounds as hypotheses.

  The structures \<open>cuda::Flux\<close> and \<open>cuda::Fluxes\<close> are declared in a header that is not
  part of the sources at hand; the records below have exactly the fields that the
  evaluator reads (a structure of arrays, indexed by the term number).
\<close>

datatype FluxKind = FLUX_FICK | FLUX_SECRETE | FLUX_UPTAKE

text \<open>The members \<open>a\<close> and \<open>b\<close> of an entry of \<open>type_ids\<close>, and the member \<open>size\<close>
  of a flux list, carry a suffix here, since the plain names are taken.\<close>

record TypeIdPair =
  a_id :: int
  b_id :: int

record Flux =
  size_flux :: nat
  kinds :: "FluxKind list"
  type_ids :: "TypeIdPair list"
  indices_a :: "nat list"
  indices_b :: "nat list"
  coef :: "real list"
  decay_coef :: "real list"
  target :: "real list"

record Fluxes =
  fluxes :: "Flux list"

text \<open>The three kernels multiply the value behind \<open>result\<close> in place; the model returns
  the new value.\<close>

definition flux_fick_cuda :: "Flux \<Rightarrow> nat \<Rightarrow> real \<Rightarrow> real \<Rightarrow> real \<Rightarrow> real" where
  "flux_fick_cuda flux i si sj result = result * (coef flux ! i * (si - sj))"

definition flux_secrete_cuda :: "Flux \<Rightarrow> nat \<Rightarrow> real \<Rightarrow> real \<Rightarrow> real \<Rightarrow> real" where
  "flux_secrete_cuda flux i si sj result =
     (let q = coef flux ! i * (si - target flux ! i);
          scale = (if q > 0 then 1 else 0)
      in result * (scale * q))"

definition flux_uptake_cuda :: "Flux \<Rightarrow> nat \<Rightarrow> real \<Rightarrow> real \<Rightarrow> real \<Rightarrow> real" where
  "flux_uptake_cuda flux i si sj result =
     (let q = coef flux ! i * (target flux ! i - sj) * si;
          scale = (if q > 0 then 1 else 0)
      in result * (scale * q))"

text \<open>The \<open>switch\<close> over the kind of term \<open>i\<close>.\<close>

definition flux_kind_cuda :: "Flux \<Rightarrow> nat \<Rightarrow> real \<Rightarrow> real \<Rightarrow> real \<Rightarrow> real" where
  "flux_kind_cuda flux i ssi ssj q =
     (case kinds flux ! i of
        FLUX_FICK \<Rightarrow> flux_fick_cuda flux i ssi ssj q
      | FLUX_SECRETE \<Rightarrow> flux_secrete_cuda flux i ssi ssj q
      | FLUX_UPTAKE \<Rightarrow> flux_uptake_cuda flux i ssi ssj q)"

text \<open>One iteration of the loop of the one-sided evaluator (seven arguments in the
  source): the accumulator \<open>qvec_i\<close> of the calling side is the only array written.\<close>

definition flux_qind :: "Flux \<Rightarrow> int \<Rightarrow> nat \<Rightarrow> nat" where
  "flux_qind flux type_i i =
     (if type_i = a_id (type_ids flux ! i) then indices_a flux ! i else indices_b flux ! i)"

definition flux_eval_step :: "real \<Rightarrow> Flux \<Rightarrow> real list \<Rightarrow> real list \<Rightarrow> int \<Rightarrow> nat \<Rightarrow> real list \<Rightarrow> real list" where
  "flux_eval_step term flux states_i states_j type_i i qvec_i =
     (let qind = flux_qind flux type_i i;
          ssi = (if type_i = a_id (type_ids flux ! i) then states_i ! qind else states_j ! (indices_a flux ! i));
          ssj = (if type_i = a_id (type_ids flux ! i) then states_j ! (indices_b flux ! i) else states_i ! qind);
          q0 = (if type_i = a_id (type_ids flux ! i) then - term else term);
          q = flux_kind_cuda flux i ssi ssj q0
      in qvec_i[qind := qvec_i ! qind + (q - 0.5 * decay_coef flux ! i * states_i ! qind)])"

definition flux_eval_ex_cuda :: "real \<Rightarrow> Fluxes \<Rightarrow> real \<Rightarrow> real list \<Rightarrow> real list \<Rightarrow> int \<Rightarrow> int \<Rightarrow> real list \<Rightarrow> real list" where
  "flux_eval_ex_cuda cuda_cutoff fxs r states_i states_j type_i type_j qvec_i =
     (let flux = fluxes fxs ! 0;
          term = 1 - r / cuda_cutoff;
          term = term * term
      in fold (flux_eval_step term flux states_i states_j type_i) [0..<size_flux flux] qvec_i)"

text \<open>The quantity exchanged by term \<open>i\<close> as the specification words it: the rate of the
  kind, gated for secretion and uptake, with \<open>ci\<close> the concentration on the \<open>a\<close> side of the
  term and \<open>cj\<close> the one on the \<open>b\<close> side.\<close>

definition term_rate :: "Flux \<Rightarrow> nat \<Rightarrow> real \<Rightarrow> real \<Rightarrow> real" where
  "term_rate flux i ci cj =
     (case kinds flux ! i of
        FLUX_FICK \<Rightarrow> coef flux ! i * (ci - cj)
      | FLUX_SECRETE \<Rightarrow>
          (if coef flux ! i * (ci - target flux ! i) \<le> 0 then 0
           else coef flux ! i * (ci - target flux ! i))
      | FLUX_UPTAKE \<Rightarrow>
          (if coef flux ! i * (target flux ! i - cj) * ci \<le> 0 then 0
           else coef flux ! i * (target flux ! i - cj) * ci))"

text \<open>The two-sided evaluator (eight arguments in the source).  The local \<open>mult\<close> is
  declared without an initial value and the three kernels multiply it in place, so the
  value it starts from is indeterminate; \<open>mult_init i\<close> stands for it in iteration \<open>i\<close>.
  The pointers \<open>qi\<close>, \<open>qj\<close> select which of the two accumulators receives which update.\<close>

definition flux_eval_step2 ::
  "real \<Rightarrow> (nat \<Rightarrow> real) \<Rightarrow> Flux \<Rightarrow> real list \<Rightarrow> real list \<Rightarrow> int \<Rightarrow> nat \<Rightarrow>
   real list \<times> real list \<Rightarrow> real list \<times> real list" where
  "flux_eval_step2 term mult_init flux states_i states_j type_i i qv =
     (let fwd = (type_i = a_id (type_ids flux ! i));
          si = (if fwd then states_i else states_j);
          sj = (if fwd then states_j else states_i);
          qi = (if fwd then fst qv else snd qv);
          qj = (if fwd then snd qv else fst qv);
          ssi = si ! (indices_a flux ! i);
          ssj = sj ! (indices_b flux ! i);
          mult = flux_kind_cuda flux i ssi ssj (mult_init i);
          q = term * mult;
          half_decay = decay_coef flux ! i * 0.5;
          qi' = qi[indices_a flux ! i := qi ! (indices_a flux ! i) - (q + half_decay * ssi)];
          qj' = qj[indices_b flux ! i := qj ! (indices_b flux ! i) + (q - half_decay * ssj)]
      in if fwd then (qi', qj') else (qj', qi'))"

definition flux_eval_ex_cuda2 ::
  "real \<Rightarrow> (nat \<Rightarrow> real) \<Rightarrow> Fluxes \<Rightarrow> real \<Rightarrow> real list \<Rightarrow> real list \<Rightarrow> int \<Rightarrow> int \<Rightarrow>
   real list \<times> real list \<Rightarrow> real list \<times> real list" where
  "flux_eval_ex_cuda2 cuda_cutoff mult_init fxs r states_i states_j type_i type_j qv =
     (let flux = fluxes fxs ! 0;
          term = 1 - r / cuda_cutoff;
          term = term * term
      in fold (flux_eval_step2 term mult_init flux states_i states_j type_i) [0..<size_flux flux] qv)"

section \<open>Self interactions of the species states (lines 2402--2452, 2542--2559)\<close>

text \<open>\<open>float4\<close> and \<open>int4\<close> are the CUDA vector types; their members \<open>x\<close>, \<open>y\<close>, \<open>z\<close>, \<open>w\<close>
  carry a prefix here.  A position holds the radius in \<open>w\<close>; the integer data of a particle
  are its id, its type, its flags and its cluster id.\<close>

record float4 =
  fx :: real
  fy :: real
  fz :: real
  fw :: real

record int4 =
  ix :: int
  iy :: int
  iz :: int
  iw :: int

text \<open>The \<open>__constant__\<close> symbols that the flux kernels read.\<close>

record flux_consts =
  cuda_cutoff :: real
  cuda_cutoff2 :: real
  cuda_maxtype :: int
  cuda_fxind :: "int list"
  cuda_fluxes :: "Fluxes list"





section \<open>Integration of the species states (lines 2929--2938)\<close>

text \<open>\<open>state::SpeciesFlags::SPECIES_KONSTANT\<close> is declared in a header that is not part of
  the sources at hand; it is the parameter \<open>KONSTANT\<close> of the model.  The kernel returns the
  new states and the new flux accumulators.\<close>

definition integrate_state_step ::
  "int \<Rightarrow> int list \<Rightarrow> real \<Rightarrow> nat \<Rightarrow> real list \<times> real list \<Rightarrow> real list \<times> real list" where
  "integrate_state_step KONSTANT species_flags dt_flux i sf =
     (let state = fst sf ! i;
          flux = snd sf ! i * (1.0 - real_of_int (species_flags ! i AND KONSTANT))
      in ((fst sf)[i := state + dt_flux * flux], (snd sf)[i := 0.0]))"

definition runner_run_cuda_integrate_state_kernel ::
  "int \<Rightarrow> real list \<Rightarrow> real list \<Rightarrow> int list \<Rightarrow> nat \<Rightarrow> real \<Rightarrow> real list \<times> real list" where
  "runner_run_cuda_integrate_state_kernel KONSTANT cuda_part_states fluxes_buf species_flags nr_fluxes dt_flux =
     fold (integrate_state_step KONSTANT species_flags dt_flux) [0..<nr_fluxes]
       (cuda_part_states, fluxes_buf)"




section \<open>The tabulated potential evaluator (lines 901--957) and the DPD evaluator (lines 1158--1199)\<close>












section \<open>The kernel launches of the per-step entry point (lines 3124--3165)\<close>

text \<open>The device buffers that the launches of \<open>engine_nonbond_cuda\<close> pass around, for one
  device, together with the engine's counter \<open>step_flux\<close>.\<close>

record device_buffers =
  forces_cuda :: "real list"
  fluxes_next_cuda :: "real list"
  part_states_cuda :: "real list"
  sortlists_cuda :: "32 word list"
  epot_cuda :: real
  step_flux :: int

text \<open>The bodies of the launched kernels are parameters here; each has the type of the
  buffers it is handed in the launch or reads through a device symbol.  A flux-only kernel
  is handed the flux buffer alone (the pair kernels also read the sort lists, all of them
  read the states) and returns it; the integration kernel is handed the flux buffer and
  writes the states as well.  Only the three kernels of the last stage are handed the
  force buffer; their template argument \<open>is_stateful\<close> is the \<^typ>\<open>bool\<close>.\<close>

record launch_kernels =
  do_sort_kernel :: "32 word list \<Rightarrow> 32 word list"
  do_self_fluxonly_kernel :: "real list \<Rightarrow> real list \<Rightarrow> real list"
  do_pair_left_fluxonly_kernel :: "32 word list \<Rightarrow> real list \<Rightarrow> real list \<Rightarrow> real list"
  do_pair_right_fluxonly_kernel :: "32 word list \<Rightarrow> real list \<Rightarrow> real list \<Rightarrow> real list"
  integrate_state_kernel :: "real list \<Rightarrow> real list \<Rightarrow> real list \<times> real list"
  do_self_kernel :: "bool \<Rightarrow> device_buffers \<Rightarrow> device_buffers"
  do_pair_left_kernel :: "bool \<Rightarrow> device_buffers \<Rightarrow> device_buffers"
  do_pair_right_kernel :: "bool \<Rightarrow> device_buffers \<Rightarrow> device_buffers"

definition cuda_memset_float :: "real list \<Rightarrow> real \<Rightarrow> nat \<Rightarrow> real list" where
  "cuda_memset_float data val N = map (\<lambda>k. if k < N then val else data ! k) [0..<length data]"

text \<open>The body of the loop over the flux sub-steps: four launches.\<close>

definition flux_substep_launches :: "launch_kernels \<Rightarrow> device_buffers \<Rightarrow> device_buffers" where
  "flux_substep_launches K dev =
     (let fl = do_self_fluxonly_kernel K (part_states_cuda dev) (fluxes_next_cuda dev);
          fl = do_pair_left_fluxonly_kernel K (sortlists_cuda dev) (part_states_cuda dev) fl;
          fl = do_pair_right_fluxonly_kernel K (sortlists_cuda dev) (part_states_cuda dev) fl;
          sf = integrate_state_kernel K (part_states_cuda dev) fl
      in dev\<lparr>part_states_cuda := fst sf, fluxes_next_cuda := snd sf\<rparr>)"

text \<open>\<open>for(e->step_flux = 0; e->step_flux < e->nr_fluxsteps - 1; e->step_flux++)\<close>, entered
  with \<open>step_flux\<close> already set.\<close>

function flux_substeps_loop :: "launch_kernels \<Rightarrow> int \<Rightarrow> device_buffers \<Rightarrow> device_buffers" where
  "flux_substeps_loop K nr_fluxsteps dev =
     (if step_flux dev < nr_fluxsteps - 1
      then flux_substeps_loop K nr_fluxsteps
             ((flux_substep_launches K dev)\<lparr>step_flux := step_flux dev + 1\<rparr>)
      else dev)"
  by pat_completeness auto
termination
  by (relation "measure (\<lambda>(K, n, dev). nat (n - 1 - step_flux dev))")
     (auto simp: flux_substep_launches_def Let_def)

declare flux_substeps_loop.simps [simp del]

text \<open>The launches for one device, in the order of the source: the two clearing kernels,
  the sort when the lists are to be rebuilt, the flux sub-steps, and the last stage.\<close>

definition last_stage_launches :: "launch_kernels \<Rightarrow> bool \<Rightarrow> device_buffers \<Rightarrow> device_buffers" where
  "last_stage_launches K is_stateful dev =
     do_pair_right_kernel K is_stateful
       (do_pair_left_kernel K is_stateful (do_self_kernel K is_stateful dev))"

definition engine_nonbond_cuda_launches ::
  "launch_kernels \<Rightarrow> nat \<Rightarrow> int \<Rightarrow> bool \<Rightarrow> nat \<Rightarrow> device_buffers \<Rightarrow> device_buffers" where
  "engine_nonbond_cuda_launches K nr_states nr_fluxsteps verlet_rebuild nr_parts dev =
     (let dev = dev\<lparr>forces_cuda := cuda_memset_float (forces_cuda dev) 0 (4 * nr_parts)\<rparr>;
          dev = (if nr_states > 0
                 then dev\<lparr>fluxes_next_cuda :=
                            cuda_memset_float (fluxes_next_cuda dev) 0 (nr_states * nr_parts)\<rparr>
                 else dev);
          dev = (if verlet_rebuild
                 then dev\<lparr>sortlists_cuda := do_sort_kernel K (sortlists_cuda dev)\<rparr> else dev);
          dev = (if nr_states > 0 \<and> nr_fluxsteps > 1
                 then flux_substeps_loop K nr_fluxsteps (dev\<lparr>step_flux := 0\<rparr>) else dev)
      in if nr_states > 0 then last_stage_launches K True dev
         else last_stage_launches K False dev)"

text \<open>One intermediate round as a function of the states and the flux accumulators, for
  sort lists \<open>sl\<close>.\<close>

definition flux_round :: "launch_kernels \<Rightarrow> 32 word list \<Rightarrow> real list \<times> real list \<Rightarrow> real list \<times> real list" where
  "flux_round K sl sf =
     integrate_state_kernel K (fst sf)
       (do_pair_right_fluxonly_kernel K sl (fst sf)
          (do_pair_left_fluxonly_kernel K sl (fst sf)
             (do_self_fluxonly_kernel K (fst sf) (snd sf))))"

section \<open>The potential energy of the self kernel (lines 2167--2252, 2487--2540)\<close>

text \<open>The squared distance of the force loops.\<close>

definition force_r2 :: "float4 \<Rightarrow> float4 \<Rightarrow> real" where
  "force_r2 pix pjx =
     (fx pix - fx pjx) * (fx pix - fx pjx) + (fy pix - fy pjx) * (fy pix - fy pjx)
       + (fz pix - fz pjx) * (fz pix - fz pjx)"

text \<open>The energy side of \<open>runner_doself_cuda\<close>, for one thread that owns all particles of
  the cell.  The parameter \<open>super_ee\<close> is what a visit of the ordered pair adds to the local
  \<open>epot\<close>: the energy \<open>ee\<close> that \<open>potential_eval_super_ex_cuda\<close> returns when the potential
  index of the two types is not zero, and \<open>0\<close> when it is.  The local sum starts from
  \<open>0.0f\<close> and is added to \<open>*epot_global\<close> at the end.\<close>

definition doself_epot_inner ::
  "(float4 \<Rightarrow> int4 \<Rightarrow> float4 \<Rightarrow> int4 \<Rightarrow> real) \<Rightarrow> real \<Rightarrow> float4 list \<Rightarrow> int4 list \<Rightarrow> nat \<Rightarrow> nat \<Rightarrow> real \<Rightarrow> real" where
  "doself_epot_inner super_ee cutoff2 parts_pos parts_datai i k epot =
     (if i \<noteq> k then
        (let pix = parts_pos ! i;
             pjx = parts_pos ! k;
             r2 = force_r2 pix pjx
         in if r2 < cutoff2
            then epot + super_ee pix (parts_datai ! i) pjx (parts_datai ! k)
            else epot)
      else epot)"

definition runner_doself_cuda_epot ::
  "(float4 \<Rightarrow> int4 \<Rightarrow> float4 \<Rightarrow> int4 \<Rightarrow> real) \<Rightarrow> real \<Rightarrow> float4 list \<Rightarrow> int4 list \<Rightarrow> nat \<Rightarrow> real \<Rightarrow> real" where
  "runner_doself_cuda_epot super_ee cutoff2 parts_pos parts_datai cnt epot_global =
     epot_global +
     fold (\<lambda>i epot. fold (doself_epot_inner super_ee cutoff2 parts_pos parts_datai i) [0..<cnt] epot)
       [0..<cnt] 0.0"

text \<open>The energy side of \<open>runner_run_cuda_do_self_kernel\<close>.  The kernel declares
  \<open>float epot;\<close> without an initial value, hands its address to the boundary loop and to the
  self loop, which both add to it, and at the end adds \<open>epot * 0.5f\<close> to \<open>cuda_epot\<close>.  The
  value that \<open>epot\<close> starts from is indeterminate; it is the parameter \<open>epot_uninit\<close>.
  \<open>boundary_ee cid\<close> is the energy that the boundary loop adds for cell \<open>cid\<close>.\<close>

definition runner_run_cuda_do_self_kernel_epot ::
  "(float4 \<Rightarrow> int4 \<Rightarrow> float4 \<Rightarrow> int4 \<Rightarrow> real) \<Rightarrow> (nat \<Rightarrow> real) \<Rightarrow> int \<Rightarrow> real \<Rightarrow> nat \<Rightarrow> int list \<Rightarrow>
   float4 list \<Rightarrow> int4 list \<Rightarrow> nat list \<Rightarrow> nat list \<Rightarrow> real \<Rightarrow> real \<Rightarrow> real" where
  "runner_run_cuda_do_self_kernel_epot super_ee boundary_ee cell_active_any cutoff2 cuda_nr_cells
       cuda_cflags cuda_parts_pos cuda_parts_datai counts ind epot_uninit cuda_epot =
     (let epot =
        fold (\<lambda>cid epot.
                (let indi = ind ! cid;
                     counti = counts ! cid;
                     epot = (if cuda_cflags ! cid AND cell_active_any \<noteq> 0
                             then epot + boundary_ee cid else epot)
                 in runner_doself_cuda_epot super_ee cutoff2 (drop indi cuda_parts_pos)
                      (drop indi cuda_parts_datai) counti epot))
          [0..<cuda_nr_cells] epot_uninit
      in cuda_epot + epot * 0.5)"

section \<open>Single precision\<close>

text \<open>A sort key is an integer cut from a single-precision value, and one rounding can move
  such a value across an integer.  For the values that end as integers (the sort keys, the
  quantised shift of a cell pair and \<open>cuda_dmaxdist\<close>) every arithmetic operation of the source
  is therefore followed here by the rounding of IEEE single precision: to the nearest
  number with 24 significant bits, ties to the even one, with exponents from \<open>- 126\<close> to
  \<open>127\<close> and the fixed spacing \<open>2 ^ - 149\<close> below \<open>2 ^ - 126\<close>.  Two things are left out: a
  result beyond the largest finite number, which the source turns into an infinity, and the
  contraction of a multiplication and an addition into one fused operation, which the source
  leaves to the compiler.\<close>

definition pow2 :: "int \<Rightarrow> real" where
  "pow2 e = (if 0 \<le> e then 2 ^ nat e else 1 / 2 ^ nat (- e))"

text \<open>The exponent \<open>e\<close> of the binade of \<open>x\<close>, \<open>2 ^ e \<le> \<bar>x\<bar> < 2 ^ (e + 1)\<close>, kept between
  \<open>- 126\<close> and \<open>127\<close>; it is searched from the top.\<close>

fun f32_exponent_below :: "nat \<Rightarrow> real \<Rightarrow> int" where
  "f32_exponent_below 0 a = - 126"
| "f32_exponent_below (Suc n) a =
     (if pow2 (int n - 125) \<le> a then int n - 125 else f32_exponent_below n a)"

definition f32_exponent :: "real \<Rightarrow> int" where
  "f32_exponent x = f32_exponent_below 253 \<bar>x\<bar>"

definition round_half_even :: "real \<Rightarrow> int" where
  "round_half_even y =
     (let n = \<lfloor>y\<rfloor>; d = y - real_of_int n
      in if d < 1 / 2 then n else if 1 / 2 < d then n + 1 else if even n then n else n + 1)"

text \<open>The single-precision number nearest to \<open>x\<close>.\<close>

definition f32 :: "real \<Rightarrow> real" where
  "f32 x = (let u = pow2 (f32_exponent x - 23) in real_of_int (round_half_even (x / u)) * u)"

text \<open>\<open>sqrtf\<close> is correctly rounded.\<close>

definition sqrtf :: "real \<Rightarrow> real" where
  "sqrtf x = f32 (sqrt x)"

section \<open>Sort keys and the walk of the pair kernels (lines 1759--1786, 1802--2006, 2580--2633)\<close>

text \<open>The \<open>__constant__\<close> symbols of the sorted walk.  \<open>cuda_shift\<close> and \<open>cuda_shiftn\<close> are the
  two tables of \<open>13 * 3\<close> numbers (the shift of every direction, and the same normalised);
  \<open>cuda_h\<close> has the three cell edge lengths.  The walk reads \<open>cuda_dmaxdist\<close>, an
  \<open>unsigned int\<close>, and the squared cutoff.\<close>

record sort_consts =
  cuda_dscale :: real
  cuda_dmaxdist :: "32 word"
  cuda_shift :: "real list"
  cuda_shiftn :: "real list"
  cuda_h :: "real list"
  pair_cutoff2 :: real

text \<open>The conversion of a \<open>float\<close> to \<open>unsigned int\<close> truncates towards zero, which is the floor
  for the values that are not negative.  On the device a value outside the range of the
  target becomes the nearest end of the range: \<open>0\<close> for the negative values, all of which
  truncate to \<open>0\<close> or lie below it, and \<open>2 ^ 32 - 1\<close> from \<open>2 ^ 32\<close> on.\<close>

definition uint_of_float :: "real \<Rightarrow> 32 word" where
  "uint_of_float v = (if v < 0 then 0 else if 2 ^ 32 \<le> v then - 1 else word_of_int \<lfloor>v\<rfloor>)"

text \<open>\<open>runner_dosort_cuda\<close> up to the call of the sort: the norm \<open>nshift\<close> of the shift of
  direction \<open>sid\<close>, and the entry of particle \<open>k\<close>, its index in the high bits and the
  quantised projection in the low bits.\<close>

definition dosort_nshift :: "sort_consts \<Rightarrow> nat \<Rightarrow> real" where
  "dosort_nshift C sid =
     (let s0 = f32 (cuda_shift C ! (3 * sid + 0) * cuda_h C ! 0);
          s1 = f32 (cuda_shift C ! (3 * sid + 1) * cuda_h C ! 1);
          s2 = f32 (cuda_shift C ! (3 * sid + 2) * cuda_h C ! 2)
      in sqrtf (f32 (f32 (f32 (s0 * s0) + f32 (s1 * s1)) + f32 (s2 * s2))))"

definition dosort_proj :: "sort_consts \<Rightarrow> nat \<Rightarrow> float4 \<Rightarrow> real" where
  "dosort_proj C sid pix =
     f32 (cuda_dscale C *
       f32 (f32 (f32 (dosort_nshift C sid + f32 (fx pix * cuda_shiftn C ! (3 * sid + 0)))
                 + f32 (fy pix * cuda_shiftn C ! (3 * sid + 1)))
            + f32 (fz pix * cuda_shiftn C ! (3 * sid + 2))))"

definition dosort_entry :: "sort_consts \<Rightarrow> nat \<Rightarrow> float4 list \<Rightarrow> nat \<Rightarrow> 32 word" where
  "dosort_entry C sid parts_pos k =
     push_bit 16 (word_of_nat k) OR uint_of_float (dosort_proj C sid (parts_pos ! k))"

definition dosort_pack :: "sort_consts \<Rightarrow> nat \<Rightarrow> float4 list \<Rightarrow> nat \<Rightarrow> 32 word list" where
  "dosort_pack C sid parts_pos count_i = map (dosort_entry C sid parts_pos) [0..<count_i]"

text \<open>The quantised shift between the two cells of a pair, as thread \<open>0\<close> of the pair
  kernels computes it from the shift vector and direction \<open>cflags\<close>.\<close>

definition pair_dshift :: "sort_consts \<Rightarrow> nat \<Rightarrow> real list \<Rightarrow> 32 word" where
  "pair_dshift C cflags shift =
     uint_of_float (f32 (cuda_dscale C *
       f32 (f32 (f32 (shift ! 0 * cuda_shiftn C ! (3 * cflags))
                 + f32 (shift ! 1 * cuda_shiftn C ! (3 * cflags + 1)))
            + f32 (shift ! 2 * cuda_shiftn C ! (3 * cflags + 2)))))"

text \<open>\<open>dmaxdist = 2 + dscale * cutoff\<close> of \<open>engine_cuda_load\<close> (line 3947), the value copied to
  \<open>cuda_dmaxdist\<close>: a single-precision product and sum, converted to \<open>unsigned int\<close>.\<close>

definition engine_cuda_load_dmaxdist :: "real \<Rightarrow> real \<Rightarrow> 32 word" where
  "engine_cuda_load_dmaxdist dscale cutoff = uint_of_float (f32 (2 + f32 (dscale * cutoff)))"

text \<open>The inner loop of \<open>runner_dopair_left_cuda\<close>,
  \<open>for(k = count_j-1; k >= 0 && (sort_j[k]&0xffff) + dshift < cuda_dmaxdist + di; k--)\<close>:
  the indices \<open>k\<close> whose body runs, in that order.  The argument is \<open>k + 1\<close>.  The arithmetic
  is that of \<open>unsigned int\<close>.\<close>

fun walk_left :: "32 word list \<Rightarrow> 32 word \<Rightarrow> 32 word \<Rightarrow> 32 word \<Rightarrow> nat \<Rightarrow> nat list" where
  "walk_left sort_j dshift dmaxdist di 0 = []"
| "walk_left sort_j dshift dmaxdist di (Suc k) =
     (if (sort_j ! k AND 0xffff) + dshift < dmaxdist + di
      then k # walk_left sort_j dshift dmaxdist di k else [])"

text \<open>The inner loop of \<open>runner_dopair_right_cuda\<close>,
  \<open>for(k = 0; k < count_j && di + dshift <= cuda_dmaxdist + (sort_j[k]&0xffff); k++)\<close>; the
  argument \<open>m\<close> is the number of indices still ahead, \<open>count_j - k\<close>.\<close>

fun walk_right :: "32 word list \<Rightarrow> 32 word \<Rightarrow> 32 word \<Rightarrow> 32 word \<Rightarrow> nat \<Rightarrow> nat \<Rightarrow> nat list" where
  "walk_right sort_j dshift dmaxdist di count_j 0 = []"
| "walk_right sort_j dshift dmaxdist di count_j (Suc m) =
     (if di + dshift \<le> dmaxdist + (sort_j ! (count_j - Suc m) AND 0xffff)
      then (count_j - Suc m) # walk_right sort_j dshift dmaxdist di count_j m else [])"

text \<open>The pairs \<open>(spid, spjd)\<close> for which the block under \<open>if(r2 < cuda_cutoff2)\<close> of the left
  kernel runs, that is, the pairs it evaluates: for every entry \<open>i\<close> of \<open>sort_i\<close>, the particle
  \<open>spid\<close> moved by \<open>- shift\<close>, against the particles \<open>spjd\<close> of the walk.\<close>

definition shift_minus :: "float4 \<Rightarrow> real list \<Rightarrow> float4" where
  "shift_minus pix shift =
     pix\<lparr>fx := fx pix - shift ! 0, fy := fy pix - shift ! 1, fz := fz pix - shift ! 2\<rparr>"

definition shift_plus :: "float4 \<Rightarrow> real list \<Rightarrow> float4" where
  "shift_plus pix shift =
     pix\<lparr>fx := fx pix + shift ! 0, fy := fy pix + shift ! 1, fz := fz pix + shift ! 2\<rparr>"

definition runner_dopair_left_cuda_pairs ::
  "sort_consts \<Rightarrow> nat \<Rightarrow> nat \<Rightarrow> float4 list \<Rightarrow> float4 list \<Rightarrow> 32 word list \<Rightarrow> 32 word list \<Rightarrow>
   real list \<Rightarrow> 32 word \<Rightarrow> (nat \<times> nat) list" where
  "runner_dopair_left_cuda_pairs C count_i count_j parts_pos_i parts_pos_j sort_i sort_j shift dshift =
     concat (map (\<lambda>i.
        (let di = sort_i ! i AND 0xffff;
             spid = unat (drop_bit 16 (sort_i ! i));
             pix = shift_minus (parts_pos_i ! spid) shift
         in map (\<lambda>k. (spid, unat (drop_bit 16 (sort_j ! k))))
              (filter (\<lambda>k. force_r2 pix (parts_pos_j ! unat (drop_bit 16 (sort_j ! k))) < pair_cutoff2 C)
                 (walk_left sort_j dshift (cuda_dmaxdist C) di count_j))))
        [0..<count_i])"

text \<open>The same for the right kernel, which moves its particle by \<open>+ shift\<close> and walks the
  other list from its start.\<close>

definition runner_dopair_right_cuda_pairs ::
  "sort_consts \<Rightarrow> nat \<Rightarrow> nat \<Rightarrow> float4 list \<Rightarrow> float4 list \<Rightarrow> 32 word list \<Rightarrow> 32 word list \<Rightarrow>
   real list \<Rightarrow> 32 word \<Rightarrow> (nat \<times> nat) list" where
  "runner_dopair_right_cuda_pairs C count_i count_j parts_pos_i parts_pos_j sort_i sort_j shift dshift =
     concat (map (\<lambda>i.
        (let di = sort_i ! i AND 0xffff;
             spid = unat (drop_bit 16 (sort_i ! i));
             pix = shift_plus (parts_pos_i ! spid) shift
         in map (\<lambda>k. (spid, unat (drop_bit 16 (sort_j ! k))))
              (filter (\<lambda>k. force_r2 pix (parts_pos_j ! unat (drop_bit 16 (sort_j ! k))) < pair_cutoff2 C)
                 (walk_right sort_j dshift (cuda_dmaxdist C) di count_j count_j))))
        [0..<count_i])"

text \<open>A list of entries is in descending order of the low 16 bits.\<close>

definition sorted_desc_key :: "32 word list \<Rightarrow> bool" where
  "sorted_desc_key xs = sorted_wrt (\<lambda>u v. (u AND 0xffff) \<ge> (v AND 0xffff)) xs"

text \<open>The two tables of the source.  The initialisers of \<open>cuda_shiftn\<close> are decimal numbers
  with 16 digits, stored as the nearest single-precision numbers; those of \<open>cuda_shift\<close> are
  \<open>0\<close>, \<open>1\<close> and \<open>- 1\<close>, which are stored as they are.\<close>

definition cuda_shiftn_table :: "real list" where
  "cuda_shiftn_table = map f32
    [0.5773502691896258, 0.5773502691896258, 0.5773502691896258,
     0.7071067811865475, 0.7071067811865475, 0.0,
     0.5773502691896258, 0.5773502691896258, - 0.5773502691896258,
     0.7071067811865475, 0.0, 0.7071067811865475,
     1.0, 0.0, 0.0,
     0.7071067811865475, 0.0, - 0.7071067811865475,
     0.5773502691896258, - 0.5773502691896258, 0.5773502691896258,
     0.7071067811865475, - 0.7071067811865475, 0.0,
     0.5773502691896258, - 0.5773502691896258, - 0.5773502691896258,
     0.0, 0.7071067811865475, 0.7071067811865475,
     0.0, 1.0, 0.0,
     0.0, 0.7071067811865475, - 0.7071067811865475,
     0.0, 0.0, 1.0]"

definition cuda_shift_table :: "real list" where
  "cuda_shift_table =
    [1.0, 1.0, 1.0,
     1.0, 1.0, 0.0,
     1.0, 1.0, - 1.0,
     1.0, 0.0, 1.0,
     1.0, 0.0, 0.0,
     1.0, 0.0, - 1.0,
     1.0, - 1.0, 1.0,
     1.0, - 1.0, 0.0,
     1.0, - 1.0, - 1.0,
     0.0, 1.0, 1.0,
     0.0, 1.0, 0.0,
     0.0, 1.0, - 1.0,
     0.0, 0.0, 1.0]"

text \<open>A configuration in which the left walk misses a partner: cells with the edges \<open>1\<close>,
  \<open>2 / 3\<close> (as a single-precision number) and \<open>2\<close>, the scale \<open>4681\<close>, the cutoff
  \<open>10730823 / 2 ^ 25\<close>, about \<open>0.3198\<close>, and its single-precision square.\<close>

definition walk_example_cutoff :: real where
  "walk_example_cutoff = 10730823 / 33554432"

definition walk_example_consts :: sort_consts where
  "walk_example_consts =
     \<lparr>cuda_dscale = 4681, cuda_dmaxdist = 1498, cuda_shift = cuda_shift_table,
      cuda_shiftn = cuda_shiftn_table, cuda_h = [1, 11184811 / 16777216, 2],
      pair_cutoff2 = 13727017 / 134217728\<rparr>"

section \<open>The bitonic sort (lines 317--364)\<close>

text \<open>The body shared by the two kinds of step: the two entries are read only when
  \<open>jnd < count\<close>, and replaced by \<open>0\<close> otherwise, so that nothing is exchanged then; they are
  exchanged when the low 16 bits of the first are below those of the second.  The variables
  \<open>i\<close>, \<open>j\<close>, \<open>k\<close>, \<open>hi\<close>, \<open>lo\<close>, \<open>ind\<close>, \<open>jnd\<close> are \<open>int\<close> in the source and integers here; for
  counts up to \<open>2^29\<close> no expression of the source leaves the range of \<open>int\<close>.\<close>

definition sort_exchange :: "32 word list \<Rightarrow> int \<Rightarrow> int \<Rightarrow> int \<Rightarrow> 32 word list" where
  "sort_exchange arr cnt ind jnd =
     (let swap_i = (if jnd < cnt then arr ! nat ind else 0);
          swap_j = (if jnd < cnt then arr ! nat jnd else 0)
      in if (swap_i AND 0xffff) < (swap_j AND 0xffff)
         then (arr[nat ind := swap_j])[nat jnd := swap_i]
         else arr)"

text \<open>The first step of a round and a second step.  Different \<open>i\<close> touch different entries,
  and the threads meet at \<open>__syncthreads()\<close> after each step, so the outcome of a step does
  not depend on how the \<open>i\<close> are dealt to the threads; the model takes them in order.\<close>

definition sort_first_step :: "32 word list \<Rightarrow> int \<Rightarrow> int \<Rightarrow> 32 word list" where
  "sort_first_step arr cnt k =
     fold (\<lambda>i arr.
             (let hi = i AND NOT (k - 1);
                  lo = i AND (k - 1);
                  ind = i + hi;
                  jnd = 2 * (hi + k) - lo - 1
              in sort_exchange arr cnt ind jnd))
       (map int [0..<nat cnt]) arr"

definition sort_second_step :: "32 word list \<Rightarrow> int \<Rightarrow> int \<Rightarrow> 32 word list" where
  "sort_second_step arr cnt j =
     fold (\<lambda>i arr.
             (let hi = i AND NOT (j - 1);
                  ind = i + hi;
                  jnd = ind + j
              in sort_exchange arr cnt ind jnd))
       (map int [0..<nat cnt]) arr"

text \<open>\<open>for(j = k/2; j > 0; j /= 2)\<close>, entered with the value of \<open>j\<close>.\<close>

function sort_second_steps :: "32 word list \<Rightarrow> int \<Rightarrow> int \<Rightarrow> 32 word list" where
  "sort_second_steps arr cnt j =
     (if j > 0 then sort_second_steps (sort_second_step arr cnt j) cnt (j div 2) else arr)"
  by pat_completeness auto
termination
  by (relation "measure (\<lambda>(arr, cnt, j). nat j)") auto

declare sort_second_steps.simps [simp del]

text \<open>\<open>for(k = 1; k < count; k *= 2)\<close>, entered with the value of \<open>k\<close>.  The loop starts from
  \<open>1\<close>, so \<open>k\<close> is positive throughout; the test \<open>0 < k\<close> only makes the function total.\<close>

function sort_rounds :: "32 word list \<Rightarrow> int \<Rightarrow> int \<Rightarrow> 32 word list" where
  "sort_rounds arr cnt k =
     (if 0 < k \<and> k < cnt
      then sort_rounds (sort_second_steps (sort_first_step arr cnt k) cnt (k div 2)) cnt (k * 2)
      else arr)"
  by pat_completeness auto
termination
  by (relation "measure (\<lambda>(arr, cnt, k). nat (cnt - k))") auto

declare sort_rounds.simps [simp del]

definition cuda_sort_descending :: "32 word list \<Rightarrow> int \<Rightarrow> 32 word list" where
  "cuda_sort_descending arr cnt = sort_rounds arr cnt 1"

text \<open>\<open>runner_dosort_cuda\<close>: pack the entries, then sort them.\<close>

definition runner_dosort_cuda :: "sort_consts \<Rightarrow> float4 list \<Rightarrow> nat \<Rightarrow> nat \<Rightarrow> 32 word list" where
  "runner_dosort_cuda C parts_pos count_i sid =
     cuda_sort_descending (dosort_pack C sid parts_pos count_i) (int count_i)"

section \<open>Notions used to reason about the bitonic sort\<close>

text \<open>The sort compares entries by their low 16 bits.\<close>

definition key16 :: "32 word \<Rightarrow> 32 word" where "key16 u = u AND 0xffff"

text \<open>The exchange of the entries at \<open>x\<close> and \<open>y\<close> of \<open>sort_exchange\<close>, over natural-number
  positions and for any key: nothing happens when \<open>y\<close> is outside the array.\<close>

definition ex :: "('a \<Rightarrow> 'k::linorder) \<Rightarrow> 'a list \<Rightarrow> nat \<Rightarrow> nat \<Rightarrow> 'a list" where
  "ex key arr x y =
     (if y < length arr \<and> key (arr ! x) < key (arr ! y) then (arr[x := arr ! y])[y := arr ! x] else arr)"

text \<open>The positions \<open>ind\<close> and \<open>jnd\<close> that the first step computes for \<open>i\<close> when \<open>k = K\<close>
  (\<open>IA\<close>, \<open>JA\<close>), those that a second step computes when \<open>j\<close> is the stride (\<open>IB\<close>, \<open>JB\<close>),
  and the \<open>i\<close> that touches position \<open>p\<close> in each kind of step (\<open>ownA\<close>, \<open>ownB\<close>).\<close>

definition IA :: "nat \<Rightarrow> nat \<Rightarrow> nat" where "IA K i = i div K * (2 * K) + i mod K"
definition JA :: "nat \<Rightarrow> nat \<Rightarrow> nat" where "JA K i = i div K * (2 * K) + (2 * K - 1 - i mod K)"
definition ownA :: "nat \<Rightarrow> nat \<Rightarrow> nat" where
  "ownA K p = p div (2 * K) * K + (if p mod (2 * K) < K then p mod (2 * K) else 2 * K - 1 - p mod (2 * K))"
definition IB :: "nat \<Rightarrow> nat \<Rightarrow> nat" where "IB j i = i div j * (2 * j) + i mod j"
definition JB :: "nat \<Rightarrow> nat \<Rightarrow> nat" where "JB j i = i div j * (2 * j) + i mod j + j"
definition ownB :: "nat \<Rightarrow> nat \<Rightarrow> nat" where
  "ownB j p = p div (2 * j) * j + (if p mod (2 * j) < j then p mod (2 * j) else p mod (2 * j) - j)"

text \<open>Whether position \<open>p\<close> holds an entry whose key is at least \<open>t\<close>.  Positions past the
  end of the array hold nothing.  An array is in descending order of the keys exactly when,
  for every \<open>t\<close>, the positions that satisfy this form an initial segment.\<close>

definition thr :: "('a \<Rightarrow> 'k::linorder) \<Rightarrow> 'k \<Rightarrow> 'a list \<Rightarrow> nat \<Rightarrow> bool" where
  "thr key t arr p = (p < length arr \<and> t \<le> key (arr ! p))"

text \<open>What the two kinds of step do to such a predicate on positions: the upper position of
  each pair receives the disjunction, the lower position the conjunction.  The first step
  pairs position \<open>o\<close> of a block of \<open>2 * K\<close> with position \<open>2 * K - 1 - o\<close> of that block, a second
  step pairs \<open>p\<close> with \<open>p + j\<close>.\<close>

definition bstepA :: "nat \<Rightarrow> (nat \<Rightarrow> bool) \<Rightarrow> nat \<Rightarrow> bool" where
  "bstepA K f p =
     (if p mod (2 * K) < K then f p \<or> f (p - p mod (2 * K) + (2 * K - 1 - p mod (2 * K)))
      else f p \<and> f (p - p mod (2 * K) + (2 * K - 1 - p mod (2 * K))))"

definition bstepB :: "nat \<Rightarrow> (nat \<Rightarrow> bool) \<Rightarrow> nat \<Rightarrow> bool" where
  "bstepB j f p = (if p mod (2 * j) < j then f p \<or> f (p + j) else f p \<and> f (p - j))"

text \<open>A predicate on \<open>{0..<M}\<close> that holds on an interval, and one that holds on an interval
  or outside an interval (an interval of the cycle of length \<open>M\<close>).\<close>

definition ivl :: "nat \<Rightarrow> (nat \<Rightarrow> bool) \<Rightarrow> bool" where
  "ivl M g = (\<exists>u v. \<forall>x<M. g x = (u \<le> x \<and> x < v))"

definition ci :: "nat \<Rightarrow> (nat \<Rightarrow> bool) \<Rightarrow> bool" where
  "ci M g = (ivl M g \<or> ivl M (\<lambda>x. \<not> g x))"

text \<open>\<open>blk_sorted M f\<close>: within every block of \<open>M\<close> positions, \<open>f\<close> holds on an initial segment
  of the block.  \<open>lvl B M f\<close>: within every block of \<open>M\<close> positions \<open>f\<close> holds on an interval of
  the cycle, and within every block of \<open>B\<close> positions, if \<open>f\<close> holds somewhere in a block of \<open>M\<close>
  then it holds everywhere in the blocks of \<open>M\<close> before it.\<close>

definition blk_sorted :: "nat \<Rightarrow> (nat \<Rightarrow> bool) \<Rightarrow> bool" where
  "blk_sorted M f = (\<forall>p q. p div M = q div M \<and> p \<le> q \<and> f q \<longrightarrow> f p)"

definition lvl :: "nat \<Rightarrow> nat \<Rightarrow> (nat \<Rightarrow> bool) \<Rightarrow> bool" where
  "lvl B M f = ((\<forall>s. ci M (\<lambda>x. f (s * M + x))) \<and>
                (\<forall>p q. p div B = q div B \<and> p div M < q div M \<and> f q \<longrightarrow> f p))"

lemma flux_kind_cuda_rate: "flux_kind_cuda flux i ssi ssj q = q * term_rate flux i ssi ssj"
  by (cases "kinds flux ! i")
     (simp_all add: flux_kind_cuda_def term_rate_def flux_fick_cuda_def flux_secrete_cuda_def
        flux_uptake_cuda_def Let_def)

text \<open>What one iteration adds to entry \<open>flux_qind flux type_i i\<close> of the accumulator, written
  with the smoothing weight \<open>w\<close> and the rate of the term: the \<open>a\<close> side of a term loses
  the exchanged quantity, the \<open>b\<close> side gains it, and either side also loses half the decay
  coefficient times its own concentration.\<close>

definition flux_contrib :: "real \<Rightarrow> Flux \<Rightarrow> real list \<Rightarrow> real list \<Rightarrow> int \<Rightarrow> nat \<Rightarrow> real" where
  "flux_contrib w flux states_i states_j type_i i =
     (if type_i = a_id (type_ids flux ! i)
      then - (w * term_rate flux i (states_i ! (indices_a flux ! i)) (states_j ! (indices_b flux ! i)))
             - 0.5 * decay_coef flux ! i * states_i ! (indices_a flux ! i)
      else w * term_rate flux i (states_j ! (indices_a flux ! i)) (states_i ! (indices_b flux ! i))
             - 0.5 * decay_coef flux ! i * states_i ! (indices_b flux ! i))"

lemma flux_eval_step_contrib:
  "flux_eval_step w flux states_i states_j type_i i qvec_i =
     qvec_i[flux_qind flux type_i i :=
       qvec_i ! flux_qind flux type_i i + flux_contrib w flux states_i states_j type_i i]"
  by (simp add: flux_eval_step_def flux_contrib_def flux_qind_def flux_kind_cuda_rate Let_def)


lemma flux_eval_fold_nth:
  "n < length qvec_i \<Longrightarrow>
   fold (flux_eval_step w flux states_i states_j type_i) ks qvec_i ! n =
     qvec_i ! n +
     (\<Sum>i\<leftarrow>filter (\<lambda>i. flux_qind flux type_i i = n) ks.
        flux_contrib w flux states_i states_j type_i i)"
proof (induction ks arbitrary: qvec_i)
  case Nil
  then show ?case by simp
next
  case (Cons k ks)
  let ?q = "flux_eval_step w flux states_i states_j type_i k qvec_i"
  have len: "n < length ?q"
    using Cons.prems by (simp add: flux_eval_step_contrib)
  have "fold (flux_eval_step w flux states_i states_j type_i) (k # ks) qvec_i ! n =
        ?q ! n + (\<Sum>i\<leftarrow>filter (\<lambda>i. flux_qind flux type_i i = n) ks.
                    flux_contrib w flux states_i states_j type_i i)"
    using Cons.IH [OF len] by simp
  moreover have "?q ! n =
      (if flux_qind flux type_i k = n
       then qvec_i ! n + flux_contrib w flux states_i states_j type_i k else qvec_i ! n)"
    using Cons.prems by (auto simp: flux_eval_step_contrib)
  ultimately show ?case by simp
qed

text \<open>
  Claim C4.  For a pair handed to the one-sided flux evaluator at distance \<open>r\<close>, every entry
  \<open>n\<close> of the caller's accumulator grows by the sum, over the terms of the flux list that
  write entry \<open>n\<close>, of the exchanged quantity and the decay correction.  The exchanged
  quantity of a term is the smoothing weight \<open>(1 - r / cutoff)\<^sup>2\<close> times the rate of the
  term: \<open>rate * (ci - cj)\<close> for Fick; \<open>rate * (ci - target)\<close> for secretion, zero when that is
  not positive; \<open>rate * (target - cj) * ci\<close> for uptake, zero when that is not positive.  It
  is subtracted on the \<open>a\<close> side of the term and added on the \<open>b\<close> side.
\<close>

theorem flux_eval_ex_cuda_exchanged:
  assumes "n < length qvec_i"
  shows "flux_eval_ex_cuda cutoff fxs r states_i states_j type_i type_j qvec_i ! n =
     qvec_i ! n +
     (\<Sum>i\<leftarrow>filter (\<lambda>i. flux_qind (fluxes fxs ! 0) type_i i = n) [0..<size_flux (fluxes fxs ! 0)].
        flux_contrib ((1 - r / cutoff) * (1 - r / cutoff)) (fluxes fxs ! 0)
          states_i states_j type_i i)"
  using assms by (simp add: flux_eval_ex_cuda_def Let_def flux_eval_fold_nth)

theorem flux_eval_ex_cuda_exchanged_witness:
  "0 < length [0::real] \<and>
   flux_eval_ex_cuda 2
     \<lparr>fluxes = [\<lparr>size_flux = 3, kinds = [FLUX_FICK, FLUX_SECRETE, FLUX_UPTAKE],
        type_ids = [\<lparr>a_id = 0, b_id = 0\<rparr>, \<lparr>a_id = 0, b_id = 0\<rparr>, \<lparr>a_id = 0, b_id = 0\<rparr>],
        indices_a = [0, 0, 0], indices_b = [0, 0, 0], coef = [1, 1, 1],
        decay_coef = [0, 0, 0], target = [0, 1, 3]\<rparr>]\<rparr>
     1 [4] [2] 0 0 [0] ! 0 = - 9 / 4"
  using flux_eval_ex_cuda_exchanged [of 0 "[0]" 2
     "\<lparr>fluxes = [\<lparr>size_flux = 3, kinds = [FLUX_FICK, FLUX_SECRETE, FLUX_UPTAKE],
        type_ids = [\<lparr>a_id = 0, b_id = 0\<rparr>, \<lparr>a_id = 0, b_id = 0\<rparr>, \<lparr>a_id = 0, b_id = 0\<rparr>],
        indices_a = [0, 0, 0], indices_b = [0, 0, 0], coef = [1, 1, 1],
        decay_coef = [0, 0, 0], target = [0, 1, 3]\<rparr>]\<rparr>" 1 "[4]" "[2]" 0 0]
  by (simp add: flux_qind_def flux_contrib_def term_rate_def upt_rec numeral_nat)

section \<open>The state-integration kernel\<close>





text \<open>
  Claim C5.  An entry whose species flags have the constant flag set is meant to keep its
  concentration, every other entry to take an explicit Euler step, and the accumulator to
  be reset.  The kernel multiplies the accumulated flux by \<open>1 - (flags AND KONSTANT)\<close>, which
  is \<open>0\<close> only when the masked flags are exactly \<open>1\<close>.  With the mask \<open>9\<close> (the boundary bit
  \<open>1\<close> together with the constant bit \<open>8\<close>) and the flags \<open>8\<close> of a constant species, the
  factor is \<open>- 7\<close>: from state \<open>0\<close>, accumulated flux \<open>1\<close> and step \<open>1\<close> the kernel stores the
  concentration \<open>- 7\<close> instead of leaving \<open>0\<close>.
\<close>

theorem integrate_state_kernel_konstant_scaled:
  "runner_run_cuda_integrate_state_kernel 9 [0] [1] [8] 1 1 = ([- 7], [0])"
  by (simp add: runner_run_cuda_integrate_state_kernel_def integrate_state_step_def)

section \<open>The self loop over the species states\<close>









section \<open>Decay and conservation in the self loop\<close>





















section \<open>Potential and DPD evaluation\<close>








section \<open>The flux sub-steps of the entry point\<close>

lemma flux_substep_launches_round:
  "flux_substep_launches K dev =
     dev\<lparr>part_states_cuda := fst (flux_round K (sortlists_cuda dev) (part_states_cuda dev, fluxes_next_cuda dev)),
         fluxes_next_cuda := snd (flux_round K (sortlists_cuda dev) (part_states_cuda dev, fluxes_next_cuda dev))\<rparr>"
  by (simp add: flux_substep_launches_def flux_round_def Let_def)

lemma flux_substeps_loop_funpow:
  "flux_substeps_loop K N dev =
     dev\<lparr>part_states_cuda :=
           fst ((flux_round K (sortlists_cuda dev) ^^ nat (N - 1 - step_flux dev))
                  (part_states_cuda dev, fluxes_next_cuda dev)),
         fluxes_next_cuda :=
           snd ((flux_round K (sortlists_cuda dev) ^^ nat (N - 1 - step_flux dev))
                  (part_states_cuda dev, fluxes_next_cuda dev)),
         step_flux := max (step_flux dev) (N - 1)\<rparr>"
proof (induction K N dev rule: flux_substeps_loop.induct)
  case (1 K N dev)
  show ?case
  proof (cases "step_flux dev < N - 1")
    case True
    let ?dev' = "(flux_substep_launches K dev)\<lparr>step_flux := step_flux dev + 1\<rparr>"
    let ?R = "flux_round K (sortlists_cuda dev)"
    let ?m = "nat (N - 1 - (step_flux dev + 1))"
    have n: "nat (N - 1 - step_flux dev) = Suc ?m"
      using True by simp
    have sl: "sortlists_cuda ?dev' = sortlists_cuda dev"
      by (simp add: flux_substep_launches_round)
    have st: "(part_states_cuda ?dev', fluxes_next_cuda ?dev') =
        ?R (part_states_cuda dev, fluxes_next_cuda dev)"
      by (simp add: flux_substep_launches_round)
    have sf: "step_flux ?dev' = step_flux dev + 1" by simp
    have fp: "(?R ^^ ?m) (?R (part_states_cuda dev, fluxes_next_cuda dev)) =
        (?R ^^ Suc ?m) (part_states_cuda dev, fluxes_next_cuda dev)"
      by (simp only: funpow_swap1 funpow.simps o_apply)
    have mx: "max (step_flux dev + 1) (N - 1) = max (step_flux dev) (N - 1)"
      using True by simp
    have upd: "?dev'\<lparr>part_states_cuda := x, fluxes_next_cuda := y, step_flux := z\<rparr> =
        dev\<lparr>part_states_cuda := x, fluxes_next_cuda := y, step_flux := z\<rparr>" for x y z
      by (simp add: flux_substep_launches_round)
    have "flux_substeps_loop K N dev = flux_substeps_loop K N ?dev'"
      using True by (subst flux_substeps_loop.simps) simp
    also have "\<dots> = ?dev'\<lparr>part_states_cuda :=
           fst ((flux_round K (sortlists_cuda ?dev') ^^ nat (N - 1 - step_flux ?dev'))
                  (part_states_cuda ?dev', fluxes_next_cuda ?dev')),
         fluxes_next_cuda :=
           snd ((flux_round K (sortlists_cuda ?dev') ^^ nat (N - 1 - step_flux ?dev'))
                  (part_states_cuda ?dev', fluxes_next_cuda ?dev')),
         step_flux := max (step_flux ?dev') (N - 1)\<rparr>"
      by (rule "1.IH" [OF True])
    finally show ?thesis
      unfolding sl st sf fp mx upd n .
  next
    case False
    then have "flux_substeps_loop K N dev = dev"
      by (subst flux_substeps_loop.simps) simp
    then show ?thesis using False by (simp add: max_def)
  qed
qed

text \<open>
  Claim C6.  With \<open>nr_fluxsteps > 1\<close> and at least one species, the launches of one call for a
  device amount to this: the force buffer and the flux buffer are cleared, the sort lists
  are rebuilt if requested, exactly \<open>nr_fluxsteps - 1\<close> intermediate rounds run, each being
  the three flux-only kernels followed by the integration kernel, and then the last stage
  (self, pair left, pair right with \<open>is_stateful\<close>) runs once.  The rounds act on the states
  and the flux accumulators only: the last stage starts from the cleared force buffer, and
  the flux buffer it leaves is the one handed back to the caller.
\<close>

theorem engine_nonbond_cuda_flux_substeps:
  assumes "nr_fluxsteps > 1" and "nr_states > 0"
  shows "engine_nonbond_cuda_launches K nr_states nr_fluxsteps verlet_rebuild nr_parts dev =
     (let sl = (if verlet_rebuild then do_sort_kernel K (sortlists_cuda dev) else sortlists_cuda dev);
          sf = (flux_round K sl ^^ nat (nr_fluxsteps - 1))
                 (part_states_cuda dev, cuda_memset_float (fluxes_next_cuda dev) 0 (nr_states * nr_parts))
      in last_stage_launches K True
           (dev\<lparr>forces_cuda := cuda_memset_float (forces_cuda dev) 0 (4 * nr_parts),
                sortlists_cuda := sl,
                part_states_cuda := fst sf,
                fluxes_next_cuda := snd sf,
                step_flux := nr_fluxsteps - 1\<rparr>))"
  using assms
  by (simp add: engine_nonbond_cuda_launches_def Let_def flux_substeps_loop_funpow max_def)

theorem engine_nonbond_cuda_flux_substeps_witness:
  "engine_nonbond_cuda_launches
     \<lparr>do_sort_kernel = (\<lambda>sl. sl),
      do_self_fluxonly_kernel = (\<lambda>st fl. map (\<lambda>v. v + 1) fl),
      do_pair_left_fluxonly_kernel = (\<lambda>sl st fl. fl),
      do_pair_right_fluxonly_kernel = (\<lambda>sl st fl. fl),
      integrate_state_kernel = (\<lambda>st fl. (map2 (+) st fl, map (\<lambda>v. 0) fl)),
      do_self_kernel = (\<lambda>stateful d. d\<lparr>forces_cuda := map (\<lambda>v. v + 1) (forces_cuda d)\<rparr>),
      do_pair_left_kernel = (\<lambda>stateful d. d),
      do_pair_right_kernel = (\<lambda>stateful d. d)\<rparr>
     1 3 False 1
     \<lparr>forces_cuda = [5, 5, 5, 5], fluxes_next_cuda = [7], part_states_cuda = [0],
      sortlists_cuda = [], epot_cuda = 0, step_flux = 0\<rparr>
   = \<lparr>forces_cuda = [1, 1, 1, 1], fluxes_next_cuda = [0], part_states_cuda = [2],
      sortlists_cuda = [], epot_cuda = 0, step_flux = 2\<rparr>"
  using engine_nonbond_cuda_flux_substeps [of 3 1
     "\<lparr>do_sort_kernel = (\<lambda>sl. sl),
      do_self_fluxonly_kernel = (\<lambda>st fl. map (\<lambda>v. v + 1) fl),
      do_pair_left_fluxonly_kernel = (\<lambda>sl st fl. fl),
      do_pair_right_fluxonly_kernel = (\<lambda>sl st fl. fl),
      integrate_state_kernel = (\<lambda>st fl. (map2 (+) st fl, map (\<lambda>v. 0) fl)),
      do_self_kernel = (\<lambda>stateful d. d\<lparr>forces_cuda := map (\<lambda>v. v + 1) (forces_cuda d)\<rparr>),
      do_pair_left_kernel = (\<lambda>stateful d. d),
      do_pair_right_kernel = (\<lambda>stateful d. d)\<rparr>" False 1
     "\<lparr>forces_cuda = [5, 5, 5, 5], fluxes_next_cuda = [7], part_states_cuda = [0],
      sortlists_cuda = [], epot_cuda = 0, step_flux = 0\<rparr>"]
  by (simp add: flux_round_def last_stage_launches_def cuda_memset_float_def upt_rec numeral_nat)


section \<open>The reported potential energy\<close>

lemma runner_run_cuda_do_self_kernel_epot_one_cell:
  "runner_run_cuda_do_self_kernel_epot super_ee boundary_ee 0 cutoff2 1 cflags pos datai [cnt] [0]
       epot_uninit epot0 =
     epot0 + (epot_uninit + runner_doself_cuda_epot super_ee cutoff2 pos datai cnt 0) * 0.5"
  by (simp add: runner_run_cuda_do_self_kernel_epot_def runner_doself_cuda_epot_def)

text \<open>
  Claim C10.  Every kernel is meant to add half of the energy it accumulated, so that a
  pair visited from both sides counts once.  The self kernel never sets its accumulator
  before the loops add to it (the two pair kernels start theirs from \<open>0.0f\<close>), so what it
  adds is half of an indeterminate value on top of the pair energies.  For one interior
  cell with two particles at distance \<open>1\<close> under cutoff \<open>2\<close>, a pair energy \<open>1\<close> on either
  visit and an accumulator that happens to hold \<open>1\<close>, the kernel reports \<open>3 / 2\<close>, where
  counting the pair once gives \<open>1\<close>.
\<close>

theorem self_kernel_epot_uninitialised:
  "runner_run_cuda_do_self_kernel_epot (\<lambda>pix di pjx dj. 1) (\<lambda>cid. 0) 0 4 1 [0]
     [\<lparr>fx = 0, fy = 0, fz = 0, fw = 1\<rparr>, \<lparr>fx = 1, fy = 0, fz = 0, fw = 1\<rparr>]
     [\<lparr>ix = 0, iy = 0, iz = 0, iw = 0\<rparr>, \<lparr>ix = 1, iy = 0, iz = 0, iw = 0\<rparr>]
     [2] [0] 1 0 = 3 / 2"
  by (simp add: runner_run_cuda_do_self_kernel_epot_def runner_doself_cuda_epot_def
      doself_epot_inner_def force_r2_def upt_rec numeral_nat Let_def)


section \<open>The left walk can miss a pair within the cutoff\<close>

subsection \<open>Evaluating a rounding\<close>

lemma pow2_pos: "0 < pow2 e"
  by (simp add: pow2_def)

lemma pow2_Suc: "pow2 (e + 1) = 2 * pow2 e"
proof (cases "0 \<le> e")
  case True
  then show ?thesis by (simp add: pow2_def nat_add_distrib)
next
  case False
  then have "nat (- e) = Suc (nat (- (e + 1)))" by simp
  then show ?thesis using False by (cases "e + 1 = 0") (simp_all add: pow2_def)
qed

lemma pow2_mono: "a \<le> b \<Longrightarrow> pow2 a \<le> pow2 b"
proof -
  assume "a \<le> b"
  then obtain k where b: "b = a + int k" by (metis nonneg_int_cases zle_iff_zadd)
  have "pow2 a \<le> pow2 (a + int k)"
  proof (induction k)
    case 0
    show ?case by simp
  next
    case (Suc k)
    have "a + int (Suc k) = a + int k + 1" by simp
    then have "pow2 (a + int (Suc k)) = 2 * pow2 (a + int k)"
      using pow2_Suc [of "a + int k"] by (simp only:)
    then show ?case using Suc pow2_pos [of "a + int k"] by linarith
  qed
  then show ?thesis using b by simp
qed

lemma f32_exponent_below_eq:
  assumes "pow2 e \<le> a" and "a < pow2 (e + 1)" and "- 126 \<le> e" and "e \<le> int n - 126"
  shows "f32_exponent_below n a = e"
  using assms(4)
proof (induction n)
  case 0
  then show ?case using assms(3) by simp
next
  case (Suc n)
  show ?case
  proof (cases "e = int n - 125")
    case True
    then show ?thesis using assms(1) by simp
  next
    case False
    then have le: "e \<le> int n - 126" using Suc.prems by simp
    then have "pow2 (e + 1) \<le> pow2 (int n - 125)" by (intro pow2_mono) simp
    then have "\<not> pow2 (int n - 125) \<le> a" using assms(2) by simp
    then show ?thesis using Suc.IH [OF le] by simp
  qed
qed

lemma f32_exponent_eq:
  assumes "pow2 e \<le> \<bar>x\<bar>" and "\<bar>x\<bar> < pow2 (e + 1)" and "- 126 \<le> e" and "e \<le> 127"
  shows "f32_exponent x = e"
  unfolding f32_exponent_def by (rule f32_exponent_below_eq [OF assms(1,2,3)]) (use assms(4) in simp)

lemma f32_exponent_below_zero: "f32_exponent_below n 0 = - 126"
  by (induction n) (simp_all add: not_le pow2_pos)

lemma f32_zero: "f32 0 = 0"
  by (simp add: f32_def round_half_even_def)

lemma f32_eval:
  assumes "pow2 e \<le> \<bar>x\<bar>" and "\<bar>x\<bar> < pow2 (e + 1)" and "- 126 \<le> e" and "e \<le> 127"
  shows "f32 x = real_of_int (round_half_even (x / pow2 (e - 23))) * pow2 (e - 23)"
  by (simp add: f32_def f32_exponent_eq [OF assms] Let_def)

lemma f32_one: "f32 1 = 1"
  using f32_eval [of 0 1] by (simp add: pow2_def round_half_even_def)

subsection \<open>The worked configuration\<close>

text \<open>Direction \<open>4\<close> is the first axis.  The first cell holds a particle at
  \<open>x = 11956589 / 2 ^ 24\<close>, about \<open>0.71267\<close>, the second cell, one edge further along the axis,
  a particle at \<open>x = 34049 / 2 ^ 20\<close>, about \<open>0.03247\<close>; all these are single-precision
  numbers.  Their distance is \<open>5365411 / 2 ^ 24\<close>, which is \<open>2 ^ - 25\<close> below the cutoff.\<close>

lemma walk_example_shiftn:
  "cuda_shiftn walk_example_consts ! 12 = 1" "cuda_shiftn walk_example_consts ! 13 = 0"
  "cuda_shiftn walk_example_consts ! 14 = 0"
  by (simp_all add: walk_example_consts_def cuda_shiftn_table_def f32_one f32_zero)

lemma walk_example_nshift: "dosort_nshift walk_example_consts 4 = 1"
  by (simp add: dosort_nshift_def walk_example_consts_def cuda_shift_table_def sqrtf_def
      f32_one f32_zero)

lemma walk_example_f32:
  "f32 (34049 / 1048576) = 34049 / 1048576"
  "f32 (1082625 / 1048576) = 1082625 / 1048576"
  "f32 (5067767625 / 1048576) = 4833"
  "f32 (11956589 / 16777216) = 11956589 / 16777216"
  "f32 (28733805 / 16777216) = 7183451 / 4194304"
  "f32 (7183451 / 4194304) = 7183451 / 4194304"
  "f32 (33625734131 / 4194304) = 16418815 / 2048"
  "f32 4681 = 4681"
  "f32 (50230982463 / 33554432) = 12263423 / 8192"
  "f32 (12279807 / 8192) = 12279807 / 8192"
  "f32 (115150562257329 / 1125899906842624) = 13727017 / 134217728"
  using f32_eval [of "- 5" "34049 / 1048576"] f32_eval [of 0 "1082625 / 1048576"]
    f32_eval [of 12 "5067767625 / 1048576"] f32_eval [of "- 1" "11956589 / 16777216"]
    f32_eval [of 0 "28733805 / 16777216"] f32_eval [of 0 "7183451 / 4194304"]
    f32_eval [of 12 "33625734131 / 4194304"] f32_eval [of 12 4681]
    f32_eval [of 10 "50230982463 / 33554432"] f32_eval [of 10 "12279807 / 8192"]
    f32_eval [of "- 4" "115150562257329 / 1125899906842624"]
  by (simp_all add: pow2_def round_half_even_def)

lemma walk_example_proj_i:
  "dosort_proj walk_example_consts 4 \<lparr>fx = 11956589 / 16777216, fy = 0, fz = 0, fw = 1\<rparr> = 16418815 / 2048"
  by (simp add: dosort_proj_def walk_example_nshift walk_example_shiftn f32_zero)
     (simp add: walk_example_consts_def walk_example_f32)

lemma walk_example_proj_j:
  "dosort_proj walk_example_consts 4 \<lparr>fx = 34049 / 1048576, fy = 0, fz = 0, fw = 1\<rparr> = 4833"
  by (simp add: dosort_proj_def walk_example_nshift walk_example_shiftn f32_zero)
     (simp add: walk_example_consts_def walk_example_f32)

lemma walk_example_dshift: "pair_dshift walk_example_consts 4 [1, 0, 0] = 4681"
  by (simp add: pair_dshift_def walk_example_shiftn f32_one f32_zero)
     (simp add: walk_example_consts_def walk_example_f32 uint_of_float_def)

lemma walk_example_dmaxdist: "engine_cuda_load_dmaxdist 4681 walk_example_cutoff = 1498"
  by (simp add: engine_cuda_load_dmaxdist_def walk_example_cutoff_def walk_example_f32
      uint_of_float_def)

lemma walk_example_cutoff2:
  "f32 (walk_example_cutoff * walk_example_cutoff) = 13727017 / 134217728"
  by (simp add: walk_example_cutoff_def walk_example_f32)

lemma runner_dosort_cuda_single:
  "runner_dosort_cuda C [p] (Suc 0) sid = [uint_of_float (dosort_proj C sid p)]"
  by (simp add: runner_dosort_cuda_def cuda_sort_descending_def dosort_pack_def dosort_entry_def
      sort_rounds.simps [of _ 1 1])

lemma walk_example_sort_i:
  "runner_dosort_cuda walk_example_consts [\<lparr>fx = 11956589 / 16777216, fy = 0, fz = 0, fw = 1\<rparr>] 1 4 = [8016]"
  by (simp add: runner_dosort_cuda_single walk_example_proj_i uint_of_float_def)

lemma walk_example_sort_j:
  "runner_dosort_cuda walk_example_consts [\<lparr>fx = 34049 / 1048576, fy = 0, fz = 0, fw = 1\<rparr>] 1 4 = [4833]"
  by (simp add: runner_dosort_cuda_single walk_example_proj_j uint_of_float_def)

text \<open>
  Claim C2.  A pair within the cutoff is meant never to be skipped by the test that ends
  the inner loop of a walk.  In the configuration above everything is as the engine sets it
  up: \<open>cuda_dmaxdist\<close> is the value of line 3947, the squared cutoff is the single-precision
  square of the cutoff, the sort lists are those that \<open>runner_dosort_cuda\<close> leaves for the
  current positions, and the quantised shift is the one the pair kernel computes.  The two
  particles are closer than the cutoff and their squared distance is below
  \<open>cuda_cutoff2\<close>.  The exact projections are \<open>8017.00003\<close> and \<open>4832.99983\<close>; single
  precision makes them \<open>8016.9995\<close> and \<open>4833\<close>, so the keys are \<open>8016\<close> and \<open>4833\<close>, and the test
  of the left walk reads \<open>4833 + 4681 < 1498 + 8016\<close>, that is \<open>9514 < 9514\<close>: the left kernel
  does not evaluate the pair.  The right kernel, whose test is the same with \<open>\<le>\<close> in the
  place of \<open><\<close>, does.
\<close>

theorem pair_left_walk_skips_pair_within_cutoff:
  "cuda_dmaxdist walk_example_consts =
     engine_cuda_load_dmaxdist (cuda_dscale walk_example_consts) walk_example_cutoff \<and>
   pair_cutoff2 walk_example_consts = f32 (walk_example_cutoff * walk_example_cutoff) \<and>
   force_r2 (shift_minus \<lparr>fx = 11956589 / 16777216, fy = 0, fz = 0, fw = 1\<rparr> [1, 0, 0])
      \<lparr>fx = 34049 / 1048576, fy = 0, fz = 0, fw = 1\<rparr> < walk_example_cutoff * walk_example_cutoff \<and>
   force_r2 (shift_minus \<lparr>fx = 11956589 / 16777216, fy = 0, fz = 0, fw = 1\<rparr> [1, 0, 0])
      \<lparr>fx = 34049 / 1048576, fy = 0, fz = 0, fw = 1\<rparr> < pair_cutoff2 walk_example_consts \<and>
   runner_dopair_left_cuda_pairs walk_example_consts 1 1
      [\<lparr>fx = 11956589 / 16777216, fy = 0, fz = 0, fw = 1\<rparr>]
      [\<lparr>fx = 34049 / 1048576, fy = 0, fz = 0, fw = 1\<rparr>]
      (runner_dosort_cuda walk_example_consts [\<lparr>fx = 11956589 / 16777216, fy = 0, fz = 0, fw = 1\<rparr>] 1 4)
      (runner_dosort_cuda walk_example_consts [\<lparr>fx = 34049 / 1048576, fy = 0, fz = 0, fw = 1\<rparr>] 1 4)
      [1, 0, 0] (pair_dshift walk_example_consts 4 [1, 0, 0]) = [] \<and>
   runner_dopair_right_cuda_pairs walk_example_consts 1 1
      [\<lparr>fx = 34049 / 1048576, fy = 0, fz = 0, fw = 1\<rparr>]
      [\<lparr>fx = 11956589 / 16777216, fy = 0, fz = 0, fw = 1\<rparr>]
      (runner_dosort_cuda walk_example_consts [\<lparr>fx = 34049 / 1048576, fy = 0, fz = 0, fw = 1\<rparr>] 1 4)
      (runner_dosort_cuda walk_example_consts [\<lparr>fx = 11956589 / 16777216, fy = 0, fz = 0, fw = 1\<rparr>] 1 4)
      [1, 0, 0] (pair_dshift walk_example_consts 4 [1, 0, 0]) = [(0, 0)]"
proof -
  have a: "cuda_dmaxdist walk_example_consts =
      engine_cuda_load_dmaxdist (cuda_dscale walk_example_consts) walk_example_cutoff"
    using walk_example_dmaxdist by (simp add: walk_example_consts_def)
  have b: "pair_cutoff2 walk_example_consts = f32 (walk_example_cutoff * walk_example_cutoff)"
    using walk_example_cutoff2 by (simp add: walk_example_consts_def)
  have c: "force_r2 (shift_minus \<lparr>fx = 11956589 / 16777216, fy = 0, fz = 0, fw = 1\<rparr> [1, 0, 0])
      \<lparr>fx = 34049 / 1048576, fy = 0, fz = 0, fw = 1\<rparr> < walk_example_cutoff * walk_example_cutoff"
    by (simp add: force_r2_def shift_minus_def walk_example_cutoff_def)
  have d: "force_r2 (shift_minus \<lparr>fx = 11956589 / 16777216, fy = 0, fz = 0, fw = 1\<rparr> [1, 0, 0])
      \<lparr>fx = 34049 / 1048576, fy = 0, fz = 0, fw = 1\<rparr> < pair_cutoff2 walk_example_consts"
    by (simp add: force_r2_def shift_minus_def walk_example_consts_def)
  have e: "runner_dopair_left_cuda_pairs walk_example_consts 1 1
      [\<lparr>fx = 11956589 / 16777216, fy = 0, fz = 0, fw = 1\<rparr>]
      [\<lparr>fx = 34049 / 1048576, fy = 0, fz = 0, fw = 1\<rparr>]
      [8016] [4833] [1, 0, 0] 4681 = []"
    by (simp add: runner_dopair_left_cuda_pairs_def walk_example_consts_def)
  have f: "runner_dopair_right_cuda_pairs walk_example_consts 1 1
      [\<lparr>fx = 34049 / 1048576, fy = 0, fz = 0, fw = 1\<rparr>]
      [\<lparr>fx = 11956589 / 16777216, fy = 0, fz = 0, fw = 1\<rparr>]
      [4833] [8016] [1, 0, 0] 4681 = [(0, 0)]"
    by (simp add: runner_dopair_right_cuda_pairs_def walk_example_consts_def force_r2_def shift_plus_def)
  show ?thesis
    unfolding walk_example_sort_i walk_example_sort_j walk_example_dshift
    using a b c d e f by blast
qed

section \<open>The bitonic sort sorts\<close>

subsection \<open>Intervals of a cycle under a half cleaner\<close>

lemma ivl_norm:
  assumes "ivl M g"
  shows "\<exists>u v. u \<le> v \<and> v \<le> M \<and> (\<forall>x<M. g x = (u \<le> x \<and> x < v))"
proof -
  from assms obtain u v where g: "\<And>x. x < M \<Longrightarrow> g x = (u \<le> x \<and> x < v)"
    unfolding ivl_def by blast
  show ?thesis
  proof (cases "u < v \<and> u < M")
    case True
    show ?thesis
      by (intro exI [of _ u] exI [of _ "min v M"]) (use True g in auto)
  next
    case False
    show ?thesis
      by (intro exI [of _ 0]) (use False g in auto)
  qed
qed

lemma ci_True: "(\<And>x. x < M \<Longrightarrow> g x) \<Longrightarrow> ci M g"
  unfolding ci_def ivl_def by (intro disjI1 exI [of _ 0] exI [of _ M]) auto

lemma ci_False: "(\<And>x. x < M \<Longrightarrow> \<not> g x) \<Longrightarrow> ci M g"
  unfolding ci_def ivl_def by (intro disjI1 exI [of _ 0] exI [of _ 0]) auto

lemma ci_not: "ci M (\<lambda>x. \<not> g x) = ci M g"
  unfolding ci_def by auto

lemma ivl_ci: "ivl M g \<Longrightarrow> ci M g"
  unfolding ci_def by simp

text \<open>The half cleaner on an interval.\<close>

lemma hc_ivl:
  assumes "ivl (2 * j) g"
  shows "((\<forall>l<j. g l \<or> g (l + j)) \<and> ivl j (\<lambda>l. g l \<and> g (l + j))) \<or>
         ((\<forall>l<j. \<not> (g l \<and> g (l + j))) \<and> ci j (\<lambda>l. g l \<or> g (l + j)))"
proof -
  from ivl_norm [OF assms] obtain u v where uv: "u \<le> v" "v \<le> 2 * j"
    and g: "\<And>x. x < 2 * j \<Longrightarrow> g x = (u \<le> x \<and> x < v)"
    by blast
  have g1: "g l = (u \<le> l \<and> l < v)" and g2: "g (l + j) = (u \<le> l + j \<and> l + j < v)" if "l < j" for l
    using g [of l] g [of "l + j"] that by simp_all
  show ?thesis
  proof (cases "j \<le> v - u")
    case True
    have "\<forall>l<j. g l \<or> g (l + j)"
      using True uv by (auto simp: g1 g2)
    moreover have "ivl j (\<lambda>l. g l \<and> g (l + j))"
      unfolding ivl_def
      by (intro exI [of _ u] exI [of _ "v - j"]) (use True uv in \<open>auto simp: g1 g2\<close>)
    ultimately show ?thesis by blast
  next
    case False
    have nb: "\<forall>l<j. \<not> (g l \<and> g (l + j))"
      using False uv by (auto simp: g1 g2)
    have "ci j (\<lambda>l. g l \<or> g (l + j))"
    proof -
      consider "v \<le> j" | "j \<le> u" | "u < j" "j < v" by linarith
      then show ?thesis
      proof cases
        case 1
        have "ivl j (\<lambda>l. g l \<or> g (l + j))"
          unfolding ivl_def
          by (intro exI [of _ u] exI [of _ v]) (use 1 uv in \<open>auto simp: g1 g2\<close>)
        then show ?thesis by (rule ivl_ci)
      next
        case 2
        have "ivl j (\<lambda>l. g l \<or> g (l + j))"
          unfolding ivl_def
          by (intro exI [of _ "u - j"] exI [of _ "v - j"]) (use 2 uv in \<open>auto simp: g1 g2\<close>)
        then show ?thesis by (rule ivl_ci)
      next
        case 3
        have "ivl j (\<lambda>l. \<not> (g l \<or> g (l + j)))"
          unfolding ivl_def
          by (intro exI [of _ "v - j"] exI [of _ u]) (use 3 False uv in \<open>auto simp: g1 g2\<close>)
        then show ?thesis unfolding ci_def by simp
      qed
    qed
    with nb show ?thesis by blast
  qed
qed

lemma hc_ci:
  assumes "ci (2 * j) g"
  shows "((\<forall>l<j. g l \<or> g (l + j)) \<and> ci j (\<lambda>l. g l \<and> g (l + j))) \<or>
         ((\<forall>l<j. \<not> (g l \<and> g (l + j))) \<and> ci j (\<lambda>l. g l \<or> g (l + j)))"
proof -
  from assms consider "ivl (2 * j) g" | "ivl (2 * j) (\<lambda>x. \<not> g x)"
    unfolding ci_def by blast
  then show ?thesis
  proof cases
    case 1
    from hc_ivl [OF 1] show ?thesis using ivl_ci by blast
  next
    case 2
    from hc_ivl [OF 2]
    have "((\<forall>l<j. \<not> g l \<or> \<not> g (l + j)) \<and> ivl j (\<lambda>l. \<not> g l \<and> \<not> g (l + j))) \<or>
         ((\<forall>l<j. \<not> (\<not> g l \<and> \<not> g (l + j))) \<and> ci j (\<lambda>l. \<not> g l \<or> \<not> g (l + j)))" .
    then show ?thesis
    proof
      assume a: "(\<forall>l<j. \<not> g l \<or> \<not> g (l + j)) \<and> ivl j (\<lambda>l. \<not> g l \<and> \<not> g (l + j))"
      then have "ivl j (\<lambda>l. \<not> (g l \<or> g (l + j)))" by simp
      then have "ci j (\<lambda>l. g l \<or> g (l + j))" unfolding ci_def by simp
      with a show ?thesis by blast
    next
      assume a: "(\<forall>l<j. \<not> (\<not> g l \<and> \<not> g (l + j))) \<and> ci j (\<lambda>l. \<not> g l \<or> \<not> g (l + j))"
      then have "ci j (\<lambda>l. \<not> (g l \<and> g (l + j)))" by simp
      then have "ci j (\<lambda>l. g l \<and> g (l + j))" by (simp only: ci_not)
      with a show ?thesis by blast
    qed
  qed
qed

subsection \<open>Blocks\<close>

lemma prefix_ex:
  "(\<And>x y. x \<le> y \<Longrightarrow> y < K \<Longrightarrow> g y \<Longrightarrow> g x) \<Longrightarrow> \<exists>a\<le>K. \<forall>x<K. g x = (x < a)"
  for K :: nat
proof (induction K)
  case 0
  then show ?case by simp
next
  case (Suc K)
  from Suc.IH Suc.prems obtain a where a: "a \<le> K" "\<And>x. x < K \<Longrightarrow> g x = (x < a)"
    by (metis less_Suc_eq)
  show ?case
  proof (cases "g K")
    case True
    have "\<forall>x<Suc K. g x = (x < Suc K)"
      using True Suc.prems [of _ K] by auto
    then show ?thesis by blast
  next
    case False
    have "\<forall>x<Suc K. g x = (x < a)"
      using False a by (auto simp: less_Suc_eq)
    then show ?thesis using a(1) by (intro exI [of _ a]) simp
  qed
qed

lemma blk_local: "x < M \<Longrightarrow> (s * M + x) div M = s" and blk_local_mod: "x < M \<Longrightarrow> (s * M + x) mod M = x"
  for x M s :: nat
  by simp_all

lemma blk_sorted_prefix:
  assumes "blk_sorted K f"
  shows "\<exists>a\<le>K. \<forall>x<K. f (t * K + x) = (x < a)"
proof (rule prefix_ex)
  fix x y assume "x \<le> y" "y < K" "f (t * K + y)"
  moreover have "(t * K + x) div K = (t * K + y) div K"
    using \<open>x \<le> y\<close> \<open>y < K\<close> by simp
  ultimately show "f (t * K + x)"
    using assms unfolding blk_sorted_def by (meson add_le_cancel_left)
qed

subsection \<open>The first step of a round\<close>

lemma div_half:
  fixes p K :: nat
  assumes "0 < K"
  shows "p div K = 2 * (p div (2 * K)) + (if p mod (2 * K) < K then 0 else 1)"
proof -
  let ?S = "p div (2 * K)" and ?o = "p mod (2 * K)"
  have p: "p = ?S * (2 * K) + ?o" by (simp only: div_mult_mod_eq)
  have o: "?o < 2 * K" using assms by simp
  show ?thesis
  proof (cases "?o < K")
    case True
    have "p = (2 * ?S) * K + ?o" using p by (simp add: mult.assoc mult.left_commute)
    then have "p div K = 2 * ?S" using True by (metis blk_local)
    then show ?thesis using True by simp
  next
    case False
    have "p = (2 * ?S + 1) * K + (?o - K)" using p False by (simp add: algebra_simps)
    moreover have "?o - K < K" using o False by simp
    ultimately have "p div K = 2 * ?S + 1" by (metis blk_local)
    then show ?thesis using False by simp
  qed
qed

lemma top_pos:
  fixes S K x :: nat
  assumes "x < K"
  shows "(S * (2 * K) + x) mod (2 * K) = x"
    and "(S * (2 * K) + x) div (2 * K) = S"
  using assms by simp_all

lemma bot_pos:
  fixes S K x :: nat
  assumes "x < K"
  shows "(S * (2 * K) + K + x) mod (2 * K) = K + x"
    and "(S * (2 * K) + K + x) div (2 * K) = S"
proof -
  have "S * (2 * K) + K + x = S * (2 * K) + (K + x)" by simp
  moreover have "K + x < 2 * K" using assms by simp
  ultimately show "(S * (2 * K) + K + x) mod (2 * K) = K + x"
    and "(S * (2 * K) + K + x) div (2 * K) = S"
    by (metis blk_local_mod, metis blk_local)
qed

lemma stepA_lvl:
  assumes K: "0 < K" and srt: "blk_sorted K f"
  shows "lvl (2 * K) K (bstepA K f)"
proof -
  have halves: "\<exists>a b. a \<le> K \<and> b \<le> K \<and>
      (\<forall>x<K. bstepA K f (S * (2 * K) + x) = (x < a \<or> K - 1 - x < b)) \<and>
      (\<forall>x<K. bstepA K f (S * (2 * K) + K + x) = (x < b \<and> K - 1 - x < a))" for S
  proof -
    from blk_sorted_prefix [OF srt, of "2 * S"] obtain a where
      a: "a \<le> K" "\<And>x. x < K \<Longrightarrow> f (2 * S * K + x) = (x < a)" by blast
    from blk_sorted_prefix [OF srt, of "2 * S + 1"] obtain b where
      b: "b \<le> K" "\<And>x. x < K \<Longrightarrow> f ((2 * S + 1) * K + x) = (x < b)" by blast
    have t: "bstepA K f (S * (2 * K) + x) = (x < a \<or> K - 1 - x < b)" if x: "x < K" for x
    proof -
      have e1: "S * (2 * K) + x = 2 * S * K + x" by simp
      have e2: "S * (2 * K) + x - x + (2 * K - 1 - x) = (2 * S + 1) * K + (K - 1 - x)"
        using x by (simp add: algebra_simps)
      have "K - 1 - x < K" using x by simp
      then show ?thesis
        using x a(2) [of x] b(2) [of "K - 1 - x"]
        unfolding bstepA_def top_pos [OF x] e2 by (simp add: e1)
    qed
    have u: "bstepA K f (S * (2 * K) + K + x) = (x < b \<and> K - 1 - x < a)" if x: "x < K" for x
    proof -
      have e1: "S * (2 * K) + K + x = (2 * S + 1) * K + x" by (simp add: algebra_simps)
      have e2: "S * (2 * K) + K + x - (K + x) + (2 * K - 1 - (K + x)) = 2 * S * K + (K - 1 - x)"
        using x by (simp add: algebra_simps)
      have "K - 1 - x < K" using x by simp
      then show ?thesis
        using x a(2) [of "K - 1 - x"] b(2) [of x]
        unfolding bstepA_def bot_pos [OF x] e2 by (simp add: e1)
    qed
    show ?thesis using a(1) b(1) t u by blast
  qed
  have cipart: "ci K (\<lambda>x. bstepA K f (s * K + x))" for s
  proof -
    from halves [of "s div 2"] obtain a b where ab: "a \<le> K" "b \<le> K"
      and t: "\<And>x. x < K \<Longrightarrow> bstepA K f (s div 2 * (2 * K) + x) = (x < a \<or> K - 1 - x < b)"
      and u: "\<And>x. x < K \<Longrightarrow> bstepA K f (s div 2 * (2 * K) + K + x) = (x < b \<and> K - 1 - x < a)"
      by blast
    show ?thesis
    proof (cases "even s")
      case True
      then have s: "s * K = s div 2 * (2 * K)" by (metis dvd_div_mult_self mult.assoc)
      have "ivl K (\<lambda>x. \<not> bstepA K f (s * K + x))"
        unfolding ivl_def s
        by (intro exI [of _ a] exI [of _ "K - b"]) (use t ab in auto)
      then show ?thesis unfolding ci_def by simp
    next
      case False
      then have "s = 2 * (s div 2) + 1" by presburger
      then have "s * K = (2 * (s div 2) + 1) * K" by simp
      then have s: "s * K = s div 2 * (2 * K) + K" by (simp add: algebra_simps)
      have "ivl K (\<lambda>x. bstepA K f (s * K + x))"
        unfolding ivl_def s
        by (intro exI [of _ "K - a"] exI [of _ b]) (use u ab in auto)
      then show ?thesis by (rule ivl_ci)
    qed
  qed
  have dom: "bstepA K f p" if pq: "p div (2 * K) = q div (2 * K)" "p div K < q div K" and fq: "bstepA K f q" for p q
  proof -
    let ?S = "p div (2 * K)"
    from halves [of ?S] obtain a b where ab: "a \<le> K" "b \<le> K"
      and t: "\<And>x. x < K \<Longrightarrow> bstepA K f (?S * (2 * K) + x) = (x < a \<or> K - 1 - x < b)"
      and u: "\<And>x. x < K \<Longrightarrow> bstepA K f (?S * (2 * K) + K + x) = (x < b \<and> K - 1 - x < a)"
      by blast
    have op: "p mod (2 * K) < K" and oq: "\<not> q mod (2 * K) < K"
      using pq div_half [OF K, of p] div_half [OF K, of q] by (auto split: if_splits)
    have p: "p = ?S * (2 * K) + p mod (2 * K)" by (simp only: div_mult_mod_eq)
    have q0: "q = ?S * (2 * K) + q mod (2 * K)" unfolding pq(1) by (simp only: div_mult_mod_eq)
    have "q mod (2 * K) < 2 * K" using K by simp
    then have ql: "q mod (2 * K) - K < K" using oq by linarith
    have q: "q = ?S * (2 * K) + K + (q mod (2 * K) - K)" using q0 oq by simp
    have "q mod (2 * K) - K < b \<and> K - 1 - (q mod (2 * K) - K) < a"
      using u [OF ql] fq q by simp
    then have "p mod (2 * K) < a \<or> K - 1 - p mod (2 * K) < b"
      using ab op by linarith
    then show ?thesis using t [OF op] p by simp
  qed
  show ?thesis unfolding lvl_def using cipart dom by blast
qed

subsection \<open>The second steps of a round\<close>

lemma same_block_dvd:
  fixes B M p r :: nat
  assumes "M dvd B" and "p div M = r div M"
  shows "p div B = r div B"
proof -
  from assms(1) obtain c where "B = M * c" by (auto simp: dvd_def)
  then show ?thesis using assms(2) by (simp add: div_mult2_eq)
qed

lemma partner_up:
  fixes p j :: nat
  assumes "p mod (2 * j) < j"
  shows "(p + j) div (2 * j) = p div (2 * j)"
proof -
  have "p + j = p div (2 * j) * (2 * j) + (p mod (2 * j) + j)"
    by (simp only: div_mult_mod_eq add.assoc [symmetric])
  moreover have "p mod (2 * j) + j < 2 * j" using assms by simp
  ultimately show ?thesis by (metis blk_local)
qed

lemma partner_down:
  fixes p j :: nat
  assumes "\<not> p mod (2 * j) < j" and "0 < j"
  shows "(p - j) div (2 * j) = p div (2 * j)"
proof -
  have p: "p = p div (2 * j) * (2 * j) + p mod (2 * j)" by (simp only: div_mult_mod_eq)
  have "p - j = p div (2 * j) * (2 * j) + (p mod (2 * j) - j)"
    using assms(1) by (subst p) simp
  moreover have "p mod (2 * j) - j < 2 * j" using assms(2)
    by (meson less_imp_diff_less mod_less_divisor mult_pos_pos zero_less_numeral)
  ultimately show ?thesis by (metis blk_local)
qed

lemma stepB_lvl:
  assumes j: "0 < j" and dv: "(2 * j) dvd B" and lv: "lvl B (2 * j) f"
  shows "lvl B j (bstepB j f)"
proof -
  have ci2: "ci (2 * j) (\<lambda>x. f (S * (2 * j) + x))" for S
    using lv unfolding lvl_def by blast
  have old: "f p" if "p div B = q div B" "p div (2 * j) < q div (2 * j)" "f q" for p q
    using lv that unfolding lvl_def by blast
  have t: "bstepB j f (S * (2 * j) + x) = (f (S * (2 * j) + x) \<or> f (S * (2 * j) + (x + j)))"
    if "x < j" for S x
    using that unfolding bstepB_def top_pos(1) [OF that] by (simp add: add.assoc)
  have u: "bstepB j f (S * (2 * j) + j + x) = (f (S * (2 * j) + x) \<and> f (S * (2 * j) + (x + j)))"
    if "x < j" for S x
  proof -
    have e1: "S * (2 * j) + j + x - j = S * (2 * j) + x" by simp
    have e2: "S * (2 * j) + j + x = S * (2 * j) + (x + j)" by simp
    have "bstepB j f (S * (2 * j) + j + x) = (f (S * (2 * j) + j + x) \<and> f (S * (2 * j) + j + x - j))"
      unfolding bstepB_def bot_pos(1) [OF that] by simp
    then have "bstepB j f (S * (2 * j) + j + x) = (f (S * (2 * j) + j + x) \<and> f (S * (2 * j) + x))"
      unfolding e1 .
    then show ?thesis unfolding e2 by blast
  qed
  have hc: "((\<forall>l<j. f (S * (2 * j) + l) \<or> f (S * (2 * j) + (l + j))) \<and>
              ci j (\<lambda>l. f (S * (2 * j) + l) \<and> f (S * (2 * j) + (l + j)))) \<or>
            ((\<forall>l<j. \<not> (f (S * (2 * j) + l) \<and> f (S * (2 * j) + (l + j)))) \<and>
              ci j (\<lambda>l. f (S * (2 * j) + l) \<or> f (S * (2 * j) + (l + j))))" for S
    using hc_ci [OF ci2 [of S]] .
  have ci_cong: "ci M g" if "ci M h" "\<And>x. x < M \<Longrightarrow> g x = h x" for M g h
    using that unfolding ci_def ivl_def by auto
  have cipart: "ci j (\<lambda>x. bstepB j f (s * j + x))" for s
  proof (cases "even s")
    case True
    then have s: "s * j = s div 2 * (2 * j)" by (metis dvd_div_mult_self mult.assoc)
    have c: "ci j (\<lambda>l. f (s div 2 * (2 * j) + l) \<or> f (s div 2 * (2 * j) + (l + j)))"
      using hc [of "s div 2"] by (auto intro: ci_True)
    show ?thesis unfolding s by (rule ci_cong [OF c]) (simp add: t)
  next
    case False
    then have "s = 2 * (s div 2) + 1" by presburger
    then have "s * j = (2 * (s div 2) + 1) * j" by simp
    then have s: "s * j = s div 2 * (2 * j) + j" by (simp add: algebra_simps)
    have c: "ci j (\<lambda>l. f (s div 2 * (2 * j) + l) \<and> f (s div 2 * (2 * j) + (l + j)))"
      using hc [of "s div 2"] by (auto intro: ci_False)
    show ?thesis unfolding s by (rule ci_cong [OF c]) (simp add: u)
  qed
  have dom: "bstepB j f p" if pq: "p div B = q div B" "p div j < q div j" and fq: "bstepB j f q" for p q
  proof (cases "p div (2 * j) = q div (2 * j)")
    case True
    let ?S = "p div (2 * j)"
    have op: "p mod (2 * j) < j" and oq: "\<not> q mod (2 * j) < j"
      using pq(2) True div_half [OF j, of p] div_half [OF j, of q] by (auto split: if_splits)
    have p: "p = ?S * (2 * j) + p mod (2 * j)" by (simp only: div_mult_mod_eq)
    have q0: "q = ?S * (2 * j) + q mod (2 * j)" unfolding True by (simp only: div_mult_mod_eq)
    have "q mod (2 * j) < 2 * j" using j by simp
    then have ql: "q mod (2 * j) - j < j" using oq by linarith
    have q: "q = ?S * (2 * j) + j + (q mod (2 * j) - j)" using q0 oq by simp
    have "f (?S * (2 * j) + (q mod (2 * j) - j)) \<and> f (?S * (2 * j) + (q mod (2 * j) - j + j))"
      using u [OF ql, of ?S] fq q by simp
    then have "\<forall>l<j. f (?S * (2 * j) + l) \<or> f (?S * (2 * j) + (l + j))"
      using hc [of ?S] ql by blast
    then have "bstepB j f (?S * (2 * j) + p mod (2 * j))"
      using t [OF op, of ?S] op by blast
    then show ?thesis using p by simp
  next
    case False
    have "p div (2 * j) = p div j div 2" "q div (2 * j) = q div j div 2"
      by (simp_all add: div_mult2_eq mult.commute)
    then have "p div (2 * j) \<le> q div (2 * j)"
      using pq(2) by (simp add: div_le_mono)
    then have lt: "p div (2 * j) < q div (2 * j)" using False by simp
    define q' where "q' = (if q mod (2 * j) < j then q + j else q - j)"
    define p' where "p' = (if p mod (2 * j) < j then p + j else p - j)"
    have q'b: "q' div (2 * j) = q div (2 * j)"
      unfolding q'_def using partner_up [of q j] partner_down [of q j] j by auto
    have p'b: "p' div (2 * j) = p div (2 * j)"
      unfolding p'_def using partner_up [of p j] partner_down [of p j] j by auto
    have fq': "f q \<or> f q'"
      using fq unfolding bstepB_def q'_def by (auto split: if_splits)
    have Bq: "q' div B = q div B" by (rule same_block_dvd [OF dv q'b])
    have Bp: "p' div B = p div B" by (rule same_block_dvd [OF dv p'b])
    have fp: "f p"
      using fq' old [of p q] old [of p q'] pq(1) lt q'b Bq by auto
    have fp': "f p'"
      using fq' old [of p' q] old [of p' q'] pq(1) lt q'b p'b Bq Bp by auto
    show ?thesis using fp fp' unfolding bstepB_def p'_def by auto
  qed
  show ?thesis unfolding lvl_def using cipart dom by blast
qed

lemma lvl_one_sorted:
  assumes "lvl B 1 f"
  shows "blk_sorted B f"
  unfolding blk_sorted_def
proof (intro allI impI)
  fix p q assume a: "p div B = q div B \<and> p \<le> q \<and> f q"
  show "f p"
  proof (cases "p = q")
    case True
    then show ?thesis using a by simp
  next
    case False
    then have "p div 1 < q div 1" using a by simp
    then show ?thesis using assms a unfolding lvl_def by blast
  qed
qed

subsection \<open>Exchanges and thresholds\<close>

lemma ex_length: "length (ex key arr x y) = length arr"
  by (simp add: ex_def)

lemma ex_other: "p \<noteq> x \<Longrightarrow> p \<noteq> y \<Longrightarrow> ex key arr x y ! p = arr ! p"
  by (simp add: ex_def)

lemma ex_mset: "x < y \<Longrightarrow> mset (ex key arr x y) = mset arr"
  unfolding ex_def using mset_swap [of y arr x] by auto

lemma ex_noop: "\<not> y < length arr \<Longrightarrow> ex key arr x y = arr"
  by (simp add: ex_def)

lemma ex_cong:
  assumes "length r = length arr" and "r ! x = arr ! x" and "r ! y = arr ! y" and "x < y"
    and "p = x \<or> p = y"
  shows "ex key r x y ! p = ex key arr x y ! p"
  using assms by (auto simp: ex_def)

lemma fold_ex_length:
  "length (fold (\<lambda>i a. ex key a (I i) (J i)) is arr) = length arr"
  by (induction "is" arbitrary: arr) (simp_all add: ex_length)

lemma fold_ex_mset:
  "(\<And>i. I i < J i) \<Longrightarrow> mset (fold (\<lambda>i a. ex key a (I i) (J i)) is arr) = mset arr"
  by (induction "is" arbitrary: arr) (simp_all add: ex_mset)

lemma fold_ex_nth:
  assumes own: "\<And>i. own (I i) = i" "\<And>i. own (J i) = i" "\<And>p. p = I (own p) \<or> p = J (own p)"
    and lt: "\<And>i. I i < J i" and p: "p < length arr"
  shows "fold (\<lambda>i a. ex key a (I i) (J i)) [0..<N] arr ! p =
           (if own p < N then ex key arr (I (own p)) (J (own p)) ! p else arr ! p)"
  using p
proof (induction N arbitrary: p)
  case 0
  then show ?case by simp
next
  case (Suc N)
  let ?r = "fold (\<lambda>i a. ex key a (I i) (J i)) [0..<N] arr"
  have len: "length ?r = length arr" by (rule fold_ex_length)
  have step: "fold (\<lambda>i a. ex key a (I i) (J i)) [0..<Suc N] arr = ex key ?r (I N) (J N)"
    by simp
  show ?case
  proof (cases "own p = N")
    case True
    then have pN: "p = I N \<or> p = J N" using own(3) [of p] by simp
    show ?thesis
    proof (cases "J N < length arr")
      case jl: True
      then have il: "I N < length arr" using lt [of N] by simp
      have "?r ! I N = arr ! I N" using Suc.IH [OF il] own(1) by simp
      moreover have "?r ! J N = arr ! J N" using Suc.IH [OF jl] own(2) by simp
      ultimately have "ex key ?r (I N) (J N) ! p = ex key arr (I N) (J N) ! p"
        using len lt [of N] pN by (intro ex_cong) simp_all
      then show ?thesis unfolding step using True by simp
    next
      case False
      then have "ex key ?r (I N) (J N) = ?r" "ex key arr (I N) (J N) = arr"
        using len by (simp_all add: ex_noop)
      then show ?thesis unfolding step using True Suc.IH [OF Suc.prems] by simp
    qed
  next
    case False
    then have "p \<noteq> I N" "p \<noteq> J N" using own(1,2) by auto
    then have "ex key ?r (I N) (J N) ! p = ?r ! p" by (rule ex_other)
    then show ?thesis unfolding step using False Suc.IH [OF Suc.prems] by (simp add: less_Suc_eq)
  qed
qed

lemma thr_ex:
  assumes "x < y"
  shows "thr key t (ex key arr x y) x = (thr key t arr x \<or> thr key t arr y)"
    and "thr key t (ex key arr x y) y = (thr key t arr x \<and> thr key t arr y)"
  using assms by (auto simp: thr_def ex_def)

lemma thr_fold_ex:
  assumes own: "\<And>i. own (I i) = i" "\<And>i. own (J i) = i" "\<And>p. p = I (own p) \<or> p = J (own p)"
    and lt: "\<And>i. I i < J i" and le: "\<And>i. i \<le> I i"
  shows "thr key t (fold (\<lambda>i a. ex key a (I i) (J i)) [0..<length arr] arr) p =
           (if p = I (own p) then thr key t arr p \<or> thr key t arr (J (own p))
            else thr key t arr p \<and> thr key t arr (I (own p)))"
proof (cases "p < length arr")
  case True
  have ow: "own p < length arr"
    using own(3) [of p] le [of "own p"] lt [of "own p"] True by auto
  have n: "fold (\<lambda>i a. ex key a (I i) (J i)) [0..<length arr] arr ! p = ex key arr (I (own p)) (J (own p)) ! p"
    using fold_ex_nth [of own I J p arr key "length arr", OF own lt True] ow by simp
  have "thr key t (fold (\<lambda>i a. ex key a (I i) (J i)) [0..<length arr] arr) p
        = thr key t (ex key arr (I (own p)) (J (own p))) p"
    unfolding thr_def n by (simp add: fold_ex_length ex_length)
  also have "\<dots> = (if p = I (own p) then thr key t arr p \<or> thr key t arr (J (own p))
            else thr key t arr p \<and> thr key t arr (I (own p)))"
  proof (cases "p = I (own p)")
    case True
    then show ?thesis using thr_ex(1) [OF lt [of "own p"], of key t arr] by simp
  next
    case False
    then have "p = J (own p)" using own(3) [of p] by simp
    then show ?thesis using thr_ex(2) [OF lt [of "own p"], of key t arr] False by (simp add: conj_commute)
  qed
  finally show ?thesis .
next
  case False
  then have "\<not> thr key t (fold (\<lambda>i a. ex key a (I i) (J i)) [0..<length arr] arr) p"
    by (simp add: thr_def fold_ex_length)
  moreover have "\<not> thr key t arr p" using False by (simp add: thr_def)
  moreover have "p = I (own p) \<Longrightarrow> \<not> thr key t arr (J (own p))"
    using lt [of "own p"] False by (simp add: thr_def)
  ultimately show ?thesis by simp
qed

subsection \<open>The positions that a step touches\<close>

lemma blk_dm:
  fixes s M x :: nat
  assumes "x < M"
  shows "(s * M + x) div M = s \<and> (s * M + x) mod M = x"
  using assms by simp

lemma IA_dm: "0 < K \<Longrightarrow> IA K i div (2 * K) = i div K \<and> IA K i mod (2 * K) = i mod K"
  unfolding IA_def by (rule blk_dm) (simp add: trans_less_add1 mult_2)

lemma JA_dm: "0 < K \<Longrightarrow> JA K i div (2 * K) = i div K \<and> JA K i mod (2 * K) = 2 * K - 1 - i mod K"
  unfolding JA_def by (rule blk_dm) simp

lemma IB_dm: "0 < j \<Longrightarrow> IB j i div (2 * j) = i div j \<and> IB j i mod (2 * j) = i mod j"
  unfolding IB_def by (rule blk_dm) (simp add: trans_less_add1 mult_2)

lemma JB_dm: "0 < j \<Longrightarrow> JB j i div (2 * j) = i div j \<and> JB j i mod (2 * j) = i mod j + j"
  unfolding JB_def add.assoc by (rule blk_dm) (simp add: mult_2)

lemma ownA_IA: "0 < K \<Longrightarrow> ownA K (IA K i) = i"
  using IA_dm [of K i] by (simp add: ownA_def)

lemma ownA_JA: "0 < K \<Longrightarrow> ownA K (JA K i) = i"
proof -
  assume K: "0 < K"
  have "i mod K < K" using K by simp
  then have "\<not> 2 * K - 1 - i mod K < K" "2 * K - 1 - (2 * K - 1 - i mod K) = i mod K"
    by linarith+
  then show ?thesis using JA_dm [OF K, of i] by (simp add: ownA_def)
qed

lemma ownB_IB: "0 < j \<Longrightarrow> ownB j (IB j i) = i"
  using IB_dm [of j i] by (simp add: ownB_def)

lemma ownB_JB: "0 < j \<Longrightarrow> ownB j (JB j i) = i"
  using JB_dm [of j i] by (simp add: ownB_def)

lemma ownA_top:
  assumes K: "0 < K" and o: "p mod (2 * K) < K"
  shows "IA K (ownA K p) = p" and "JA K (ownA K p) = p - p mod (2 * K) + (2 * K - 1 - p mod (2 * K))"
proof -
  have ow: "ownA K p = p div (2 * K) * K + p mod (2 * K)" using o by (simp add: ownA_def)
  have dm: "ownA K p div K = p div (2 * K) \<and> ownA K p mod K = p mod (2 * K)"
    unfolding ow by (rule blk_dm [OF o])
  have p: "p div (2 * K) * (2 * K) + p mod (2 * K) = p" by (simp only: div_mult_mod_eq)
  show "IA K (ownA K p) = p" unfolding IA_def using dm p by simp
  have "p - p mod (2 * K) = p div (2 * K) * (2 * K)" using p by linarith
  then show "JA K (ownA K p) = p - p mod (2 * K) + (2 * K - 1 - p mod (2 * K))"
    unfolding JA_def using dm by simp
qed

lemma ownA_bot:
  assumes K: "0 < K" and o: "\<not> p mod (2 * K) < K"
  shows "JA K (ownA K p) = p" and "IA K (ownA K p) = p - p mod (2 * K) + (2 * K - 1 - p mod (2 * K))"
proof -
  have o2: "p mod (2 * K) < 2 * K" using K by simp
  have ow: "ownA K p = p div (2 * K) * K + (2 * K - 1 - p mod (2 * K))" using o by (simp add: ownA_def)
  have lt: "2 * K - 1 - p mod (2 * K) < K" using o o2 by linarith
  have dm: "ownA K p div K = p div (2 * K) \<and> ownA K p mod K = 2 * K - 1 - p mod (2 * K)"
    unfolding ow by (rule blk_dm [OF lt])
  have p: "p div (2 * K) * (2 * K) + p mod (2 * K) = p" by (simp only: div_mult_mod_eq)
  have e: "2 * K - 1 - (2 * K - 1 - p mod (2 * K)) = p mod (2 * K)" using o2 by linarith
  show "JA K (ownA K p) = p" unfolding JA_def using dm p e by simp
  have "p - p mod (2 * K) = p div (2 * K) * (2 * K)" using p by linarith
  then show "IA K (ownA K p) = p - p mod (2 * K) + (2 * K - 1 - p mod (2 * K))"
    unfolding IA_def using dm by simp
qed

lemma ownB_top:
  assumes j: "0 < j" and o: "p mod (2 * j) < j"
  shows "IB j (ownB j p) = p" and "JB j (ownB j p) = p + j"
proof -
  have ow: "ownB j p = p div (2 * j) * j + p mod (2 * j)" using o by (simp add: ownB_def)
  have dm: "ownB j p div j = p div (2 * j) \<and> ownB j p mod j = p mod (2 * j)"
    unfolding ow by (rule blk_dm [OF o])
  have p: "p div (2 * j) * (2 * j) + p mod (2 * j) = p" by (simp only: div_mult_mod_eq)
  show "IB j (ownB j p) = p" unfolding IB_def using dm p by simp
  show "JB j (ownB j p) = p + j" unfolding JB_def using dm p by simp
qed

lemma ownB_bot:
  assumes j: "0 < j" and o: "\<not> p mod (2 * j) < j"
  shows "JB j (ownB j p) = p" and "IB j (ownB j p) = p - j"
proof -
  have o2: "p mod (2 * j) < 2 * j" using j by simp
  have ow: "ownB j p = p div (2 * j) * j + (p mod (2 * j) - j)" using o by (simp add: ownB_def)
  have lt: "p mod (2 * j) - j < j" using o o2 by linarith
  have dm: "ownB j p div j = p div (2 * j) \<and> ownB j p mod j = p mod (2 * j) - j"
    unfolding ow by (rule blk_dm [OF lt])
  have p: "p div (2 * j) * (2 * j) + p mod (2 * j) = p" by (simp only: div_mult_mod_eq)
  show "JB j (ownB j p) = p" unfolding JB_def using dm p o by simp
  have "p div (2 * j) * (2 * j) + (p mod (2 * j) - j) = p - j" using p o by linarith
  then show "IB j (ownB j p) = p - j" unfolding IB_def using dm by simp
qed

lemma IA_lt_JA: "0 < K \<Longrightarrow> IA K i < JA K i"
proof -
  assume "0 < K"
  then have "i mod K < K" by simp
  then show ?thesis unfolding IA_def JA_def by linarith
qed

lemma IB_lt_JB: "0 < j \<Longrightarrow> IB j i < JB j i"
  by (simp add: IB_def JB_def)

lemma le_IA: "0 < K \<Longrightarrow> i \<le> IA K i"
proof -
  have a: "i div K * K + i mod K = i" by (simp only: div_mult_mod_eq)
  have "i div K * K \<le> i div K * (2 * K)" by simp
  then show ?thesis unfolding IA_def using a by linarith
qed

lemma le_IB: "0 < j \<Longrightarrow> i \<le> IB j i"
proof -
  have a: "i div j * j + i mod j = i" by (simp only: div_mult_mod_eq)
  have "i div j * j \<le> i div j * (2 * j)" by simp
  then show ?thesis unfolding IB_def using a by linarith
qed

lemma ownA_cases: "0 < K \<Longrightarrow> p = IA K (ownA K p) \<or> p = JA K (ownA K p)"
  using ownA_top(1) [of K p] ownA_bot(1) [of K p] by (cases "p mod (2 * K) < K") simp_all

lemma ownB_cases: "0 < j \<Longrightarrow> p = IB j (ownB j p) \<or> p = JB j (ownB j p)"
  using ownB_top(1) [of j p] ownB_bot(1) [of j p] by (cases "p mod (2 * j) < j") simp_all

lemma bstepA_own:
  assumes K: "0 < K"
  shows "(if p = IA K (ownA K p) then f p \<or> f (JA K (ownA K p)) else f p \<and> f (IA K (ownA K p)))
         = bstepA K f p"
proof (cases "p mod (2 * K) < K")
  case True
  then show ?thesis using ownA_top [OF K True] by (simp add: bstepA_def)
next
  case False
  have "IA K (ownA K p) < JA K (ownA K p)" by (rule IA_lt_JA [OF K])
  then have "p \<noteq> IA K (ownA K p)" using ownA_bot(1) [OF K False] by simp
  then show ?thesis using ownA_bot [OF K False] False by (simp add: bstepA_def)
qed

lemma bstepB_own:
  assumes j: "0 < j"
  shows "(if p = IB j (ownB j p) then f p \<or> f (JB j (ownB j p)) else f p \<and> f (IB j (ownB j p)))
         = bstepB j f p"
proof (cases "p mod (2 * j) < j")
  case True
  then show ?thesis using ownB_top [OF j True] by (simp add: bstepB_def)
next
  case False
  have "IB j (ownB j p) < JB j (ownB j p)" by (rule IB_lt_JB [OF j])
  then have "p \<noteq> IB j (ownB j p)" using ownB_bot(1) [OF j False] by simp
  then show ?thesis using ownB_bot [OF j False] False by (simp add: bstepB_def)
qed

subsection \<open>The steps of the source as exchanges\<close>

lemma and_low: "int n AND (2 ^ m - 1) = int (n mod 2 ^ m)"
proof -
  have "int n AND (2 ^ m - 1) = take_bit m (int n)"
    by (simp add: take_bit_eq_mask mask_eq_exp_minus_1)
  also have "\<dots> = int (n mod 2 ^ m)" by (simp add: take_bit_eq_mod zmod_int)
  finally show ?thesis .
qed

lemma and_high: "int n AND NOT (2 ^ m - 1) = int (n div 2 ^ m * 2 ^ m)"
proof -
  have "int n AND NOT (mask m) = push_bit m (drop_bit m (int n))"
    by (rule bit_eqI) (auto simp add: bit_simps)
  also have "\<dots> = int (n div 2 ^ m * 2 ^ m)"
    by (simp add: push_bit_eq_mult drop_bit_eq_div zdiv_int)
  finally show ?thesis by (simp add: mask_eq_exp_minus_1)
qed

lemma sort_exchange_ex:
  assumes "length arr = nat cnt"
  shows "sort_exchange arr cnt (int x) (int y) = ex key16 arr x y"
proof (cases "int y < cnt")
  case True
  then have "y < length arr" using assms by linarith
  then show ?thesis using True by (simp add: sort_exchange_def ex_def key16_def Let_def)
next
  case False
  then have "\<not> y < length arr" using assms by linarith
  then show ?thesis using False by (simp add: sort_exchange_def ex_noop Let_def)
qed

lemma first_step_ind: "int i + int (i div K * K) = int (IA K i)"
proof -
  have "i div K * K + i mod K = i" by (simp only: div_mult_mod_eq)
  then have "i + i div K * K = IA K i" unfolding IA_def by (simp add: algebra_simps)
  then show ?thesis by (simp only: of_nat_add [symmetric])
qed

lemma first_step_jnd:
  "2 * (int (i div 2 ^ m * 2 ^ m) + int (2 ^ m)) - int (i mod 2 ^ m) - 1 = int (JA (2 ^ m) i)"
proof -
  have "i mod 2 ^ m < 2 ^ m" by simp
  then have "i mod 2 ^ m + 1 \<le> 2 * 2 ^ m" by linarith
  then have "int (2 * 2 ^ m - 1 - i mod 2 ^ m) = 2 * int (2 ^ m) - 1 - int (i mod 2 ^ m)"
    by linarith
  then show ?thesis unfolding JA_def by (simp add: algebra_simps)
qed

lemma second_step_ind: "int i + int (i div j * j) = int (IB j i)"
proof -
  have "i div j * j + i mod j = i" by (simp only: div_mult_mod_eq)
  then have "i + i div j * j = IB j i" unfolding IB_def by (simp add: algebra_simps)
  then show ?thesis by (simp only: of_nat_add [symmetric])
qed

lemma second_step_jnd: "int (IB j i) + int j = int (JB j i)"
  by (simp add: IB_def JB_def)

lemma fold_map_int: "fold f (map int xs) a = fold (\<lambda>i. f (int i)) xs a"
  by (simp add: fold_map comp_def)

lemma sort_first_step_ex:
  "sort_first_step arr cnt (2 ^ m) =
     fold (\<lambda>i a. sort_exchange a cnt (int (IA (2 ^ m) i)) (int (JA (2 ^ m) i))) [0..<nat cnt] arr"
proof -
  have K: "(2::int) ^ m = int (2 ^ m)" by simp
  show ?thesis
    unfolding sort_first_step_def fold_map_int Let_def and_low and_high
    unfolding K first_step_ind first_step_jnd ..
qed

lemma sort_second_step_ex:
  "sort_second_step arr cnt (2 ^ m) =
     fold (\<lambda>i a. sort_exchange a cnt (int (IB (2 ^ m) i)) (int (JB (2 ^ m) i))) [0..<nat cnt] arr"
proof -
  have K: "(2::int) ^ m = int (2 ^ m)" by simp
  show ?thesis
    unfolding sort_second_step_def fold_map_int Let_def and_high
    unfolding K second_step_ind second_step_jnd ..
qed

lemma fold_sort_exchange_ex:
  "length arr = nat cnt \<Longrightarrow>
   fold (\<lambda>i a. sort_exchange a cnt (int (I i)) (int (J i))) xs arr
     = fold (\<lambda>i a. ex key16 a (I i) (J i)) xs arr"
proof (induction xs arbitrary: arr)
  case Nil
  show ?case by simp
next
  case (Cons x xs)
  have e: "sort_exchange arr cnt (int (I x)) (int (J x)) = ex key16 arr (I x) (J x)"
    by (rule sort_exchange_ex [OF Cons.prems])
  have "length (ex key16 arr (I x) (J x)) = nat cnt" using Cons.prems by (simp add: ex_length)
  then show ?case using Cons.IH e by simp
qed

lemma first_step_fold:
  assumes "length arr = nat cnt"
  shows "sort_first_step arr cnt (2 ^ m)
         = fold (\<lambda>i a. ex key16 a (IA (2 ^ m) i) (JA (2 ^ m) i)) [0..<length arr] arr"
  unfolding sort_first_step_ex fold_sort_exchange_ex [OF assms] using assms by simp

lemma second_step_fold:
  assumes "length arr = nat cnt"
  shows "sort_second_step arr cnt (2 ^ m)
         = fold (\<lambda>i a. ex key16 a (IB (2 ^ m) i) (JB (2 ^ m) i)) [0..<length arr] arr"
  unfolding sort_second_step_ex fold_sort_exchange_ex [OF assms] using assms by simp

lemma first_step_length: "length arr = nat cnt \<Longrightarrow> length (sort_first_step arr cnt (2 ^ m)) = nat cnt"
  by (simp add: first_step_fold fold_ex_length)

lemma second_step_length: "length arr = nat cnt \<Longrightarrow> length (sort_second_step arr cnt (2 ^ m)) = nat cnt"
  by (simp add: second_step_fold fold_ex_length)

lemma first_step_mset: "length arr = nat cnt \<Longrightarrow> mset (sort_first_step arr cnt (2 ^ m)) = mset arr"
  by (simp add: first_step_fold fold_ex_mset IA_lt_JA)

lemma second_step_mset: "length arr = nat cnt \<Longrightarrow> mset (sort_second_step arr cnt (2 ^ m)) = mset arr"
  by (simp add: second_step_fold fold_ex_mset IB_lt_JB)

lemma first_step_thr:
  assumes "length arr = nat cnt"
  shows "thr key16 t (sort_first_step arr cnt (2 ^ m)) = bstepA (2 ^ m) (thr key16 t arr)"
proof
  fix p
  have K: "0 < (2::nat) ^ m" by simp
  show "thr key16 t (sort_first_step arr cnt (2 ^ m)) p = bstepA (2 ^ m) (thr key16 t arr) p"
    unfolding first_step_fold [OF assms] bstepA_own [OF K, symmetric]
    by (rule thr_fold_ex [where own = "ownA (2 ^ m)"])
       (simp_all add: ownA_IA ownA_JA ownA_cases IA_lt_JA le_IA)
qed

lemma second_step_thr:
  assumes "length arr = nat cnt"
  shows "thr key16 t (sort_second_step arr cnt (2 ^ m)) = bstepB (2 ^ m) (thr key16 t arr)"
proof
  fix p
  have K: "0 < (2::nat) ^ m" by simp
  show "thr key16 t (sort_second_step arr cnt (2 ^ m)) p = bstepB (2 ^ m) (thr key16 t arr) p"
    unfolding second_step_fold [OF assms] bstepB_own [OF K, symmetric]
    by (rule thr_fold_ex [where own = "ownB (2 ^ m)"])
       (simp_all add: ownB_IB ownB_JB ownB_cases IB_lt_JB le_IB)
qed

subsection \<open>Rounds\<close>

lemma sort_second_steps_zero: "sort_second_steps arr cnt 0 = arr"
  by (subst sort_second_steps.simps) simp

lemma sort_second_steps_pow:
  "sort_second_steps arr cnt (2 ^ Suc n) = sort_second_steps (sort_second_step arr cnt (2 ^ Suc n)) cnt (2 ^ n)"
  by (subst sort_second_steps.simps) simp

lemma sort_second_steps_one:
  "sort_second_steps arr cnt 1 = sort_second_step arr cnt 1"
  by (subst sort_second_steps.simps) (simp add: sort_second_steps_zero)

lemma second_steps_lvl:
  assumes "length arr = nat cnt" and "(2 * 2 ^ n) dvd B"
    and "\<And>t. lvl B (2 * 2 ^ n) (thr key16 t arr)"
  shows "length (sort_second_steps arr cnt (2 ^ n)) = nat cnt
         \<and> mset (sort_second_steps arr cnt (2 ^ n)) = mset arr
         \<and> (\<forall>t. lvl B 1 (thr key16 t (sort_second_steps arr cnt (2 ^ n))))"
  using assms
proof (induction n arbitrary: arr)
  case 0
  have len: "length arr = nat cnt" by (rule "0.prems"(1))
  have e: "sort_second_steps arr cnt (2 ^ 0) = sort_second_step arr cnt (2 ^ 0)"
    using sort_second_steps_one [of arr cnt] by simp
  have "lvl B 1 (thr key16 t (sort_second_step arr cnt (2 ^ 0)))" for t
    unfolding second_step_thr [OF len]
    using stepB_lvl [of 1 B "thr key16 t arr"] "0.prems"(2,3) by simp
  then show ?case unfolding e using second_step_length [OF len, of 0] second_step_mset [OF len, of 0]
    by blast
next
  case (Suc n)
  have len: "length arr = nat cnt" by (rule Suc.prems(1))
  let ?a = "sort_second_step arr cnt (2 ^ Suc n)"
  have len': "length ?a = nat cnt" by (rule second_step_length [OF len])
  have ms: "mset ?a = mset arr" by (rule second_step_mset [OF len])
  have dv: "(2 * 2 ^ n) dvd B" using Suc.prems(2) by (metis dvd_mult_right power_Suc)
  have l: "lvl B (2 * 2 ^ n) (thr key16 t ?a)" for t
  proof -
    have "lvl B (2 ^ Suc n) (bstepB (2 ^ Suc n) (thr key16 t arr))"
      by (rule stepB_lvl) (use Suc.prems(2,3) in simp_all)
    then show ?thesis unfolding second_step_thr [OF len] by simp
  qed
  show ?case unfolding sort_second_steps_pow using Suc.IH [OF len' dv l] ms by simp
qed

lemma sort_round_sorted:
  assumes len: "length arr = nat cnt"
    and srt: "\<And>t. blk_sorted (2 ^ m) (thr key16 t arr)"
  shows "length (sort_second_steps (sort_first_step arr cnt (2 ^ m)) cnt (2 ^ m div 2)) = nat cnt
       \<and> mset (sort_second_steps (sort_first_step arr cnt (2 ^ m)) cnt (2 ^ m div 2)) = mset arr
       \<and> (\<forall>t. blk_sorted (2 * 2 ^ m)
                (thr key16 t (sort_second_steps (sort_first_step arr cnt (2 ^ m)) cnt (2 ^ m div 2))))"
proof -
  let ?a = "sort_first_step arr cnt (2 ^ m)"
  have len': "length ?a = nat cnt" by (rule first_step_length [OF len])
  have ms: "mset ?a = mset arr" by (rule first_step_mset [OF len])
  have l: "lvl (2 * 2 ^ m) (2 ^ m) (thr key16 t ?a)" for t
    unfolding first_step_thr [OF len] by (rule stepA_lvl) (simp_all add: srt)
  show ?thesis
  proof (cases m)
    case 0
    have "blk_sorted 2 (thr key16 t ?a)" for t
      using lvl_one_sorted [of 2 "thr key16 t ?a"] l [of t] 0 by simp
    then show ?thesis using 0 len' ms by (simp add: sort_second_steps_zero)
  next
    case (Suc n)
    have d: "(2::int) ^ m div 2 = 2 ^ n" using Suc by simp
    have l': "lvl (2 * 2 ^ m) (2 * 2 ^ n) (thr key16 t ?a)" for t using l [of t] Suc by simp
    have dv: "((2::nat) * 2 ^ n) dvd (2 * 2 ^ m)" using Suc by simp
    show ?thesis unfolding d
      using second_steps_lvl [OF len' dv l'] ms lvl_one_sorted by auto
  qed
qed

lemma sort_rounds_sorted:
  assumes "length arr = nat cnt" and "k = 2 ^ m"
    and "\<And>t. blk_sorted (2 ^ m) (thr key16 t arr)"
  shows "length (sort_rounds arr cnt k) = nat cnt
       \<and> mset (sort_rounds arr cnt k) = mset arr
       \<and> (\<exists>M. nat cnt \<le> M \<and> (\<forall>t. blk_sorted M (thr key16 t (sort_rounds arr cnt k))))"
  using assms
proof (induction arr cnt k arbitrary: m rule: sort_rounds.induct)
  case (1 arr cnt k)
  show ?case
  proof (cases "0 < k \<and> k < cnt")
    case True
    let ?a = "sort_second_steps (sort_first_step arr cnt k) cnt (k div 2)"
    have r: "length ?a = nat cnt" "mset ?a = mset arr"
      "\<And>t. blk_sorted (2 ^ Suc m) (thr key16 t ?a)"
      using sort_round_sorted [OF "1.prems"(1), of m] "1.prems"(2,3) by simp_all
    have k2: "k * 2 = 2 ^ Suc m" using "1.prems"(2) by simp
    have e: "sort_rounds arr cnt k = sort_rounds ?a cnt (k * 2)"
      by (subst sort_rounds.simps) (use True in simp)
    show ?thesis unfolding e using "1.IH" [OF True r(1) k2 r(3)] r(2) by simp
  next
    case False
    have e: "sort_rounds arr cnt k = arr"
      by (subst sort_rounds.simps) (use False in auto)
    have "0 < k" using "1.prems"(2) by simp
    then have "cnt \<le> int (2 ^ m)" using False "1.prems"(2) by simp
    then have "nat cnt \<le> 2 ^ m" by linarith
    then show ?thesis unfolding e using "1.prems"(1,3) by blast
  qed
qed

lemma blk_sorted_one: "blk_sorted (Suc 0) f"
  by (simp add: blk_sorted_def)

lemma thr_sorted_desc:
  assumes "length res \<le> M" and "\<And>t. blk_sorted M (thr key16 t res)"
  shows "sorted_desc_key res"
  unfolding sorted_desc_key_def sorted_wrt_iff_nth_less
proof (intro allI impI)
  fix i j
  assume ij: "i < j" "j < length res"
  have "thr key16 (key16 (res ! j)) res j" using ij by (simp add: thr_def)
  moreover have "i div M = j div M" using ij assms(1) by simp
  ultimately have "thr key16 (key16 (res ! j)) res i"
    using assms(2) [of "key16 (res ! j)"] ij(1) unfolding blk_sorted_def
    by (meson less_imp_le)
  then show "res ! j AND 0xffff \<le> res ! i AND 0xffff" by (simp add: thr_def key16_def)
qed

lemma cuda_sort_descending_sorts:
  assumes "length arr = nat cnt"
  shows "mset (cuda_sort_descending arr cnt) = mset arr \<and> sorted_desc_key (cuda_sort_descending arr cnt)"
proof -
  have s: "length (sort_rounds arr cnt 1) = nat cnt \<and> mset (sort_rounds arr cnt 1) = mset arr
       \<and> (\<exists>M. nat cnt \<le> M \<and> (\<forall>t. blk_sorted M (thr key16 t (sort_rounds arr cnt 1))))"
    by (rule sort_rounds_sorted [OF assms, of 1 0]) (simp_all add: blk_sorted_one)
  then obtain M where M: "length (sort_rounds arr cnt 1) \<le> M"
     "\<And>t. blk_sorted M (thr key16 t (sort_rounds arr cnt 1))" by auto
  show ?thesis unfolding cuda_sort_descending_def using s thr_sorted_desc [OF M] by simp
qed

text \<open>Claim C7.  For every cell, every direction \<open>sid\<close> and every particle count, the array
  that \<open>runner_dosort_cuda\<close> leaves is a permutation of the packed entries (the particle index
  shifted left by 16 bits, or-ed with the quantised projection) and is in descending order of
  the low 16 bits of its entries.\<close>

theorem runner_dosort_cuda_sorted:
  "mset (runner_dosort_cuda C parts_pos count_i sid) = mset (dosort_pack C sid parts_pos count_i)
   \<and> sorted_desc_key (runner_dosort_cuda C parts_pos count_i sid)"
  unfolding runner_dosort_cuda_def
  by (rule cuda_sort_descending_sorts) (simp add: dosort_pack_def)

end
